theory Spec2Isabelle
  imports Main "HOL-Library.AList"
begin

section \<open>Shared values: time stamps, decimal formatting, errors\<close>

text \<open>
  A \<open>time.Time\<close> is an instant; it is kept as a number of nanoseconds, with \<open>0\<close>
  standing for Go's zero \<open>time.Time\<close> (the value of a field that was never set).
  Calls of \<open>time.Now()\<close> are inputs of the operations that make them.
\<close>

type_synonym time = int

definition zero_time :: time where
  "zero_time = 0"

text \<open>
  Go's \<open>int\<close> is a 64-bit two's complement integer on the platforms the daemon runs on.
  Values are kept as \<open>int\<close>, and the sums and differences of the pool code that can
  leave the 64-bit range go through \<open>wrap64\<close>, which writes the wrap-around out.
\<close>

definition wrap64 :: "int \<Rightarrow> int" where
  "wrap64 x = (x + 2 ^ 63) mod 2 ^ 64 - 2 ^ 63"

text \<open>The verb \<open>%d\<close> of \<open>fmt.Sprintf\<close>: decimal digits, with a minus sign for a negative value.\<close>

definition digit_char :: "nat \<Rightarrow> char" where
  "digit_char d = char_of (48 + d)"

fun digits10 :: "nat \<Rightarrow> string" where
  "digits10 n = (if n < 10 then [digit_char n] else digits10 (n div 10) @ [digit_char (n mod 10)])"

declare digits10.simps [simp del]

definition sprint_d :: "int \<Rightarrow> string" where
  "sprint_d i = (if i < 0 then CHR ''-'' # digits10 (nat (- i)) else digits10 (nat i))"

text \<open>
  Errors are values. Each constructor stands for one \<open>fmt.Errorf\<close> of the source; a
  wrapped error (\<open>%w\<close>) keeps the error it wraps. \<open>IOError\<close> is a failure reported by the
  operating system or by the hypervisor driver, whose text the model does not look at.
\<close>

datatype error =
    IOError
  | NoWarmVMs
  | NotInPool string
  | DeletingVM string error
  | ProjectRequired
  | RepoURLRequired
  | PromptRequired
  | InvalidTool string
  | InvalidTask error
  | ClaimingVM error
  | WritingTaskConfig error
  | InjectingTaskConfig error
  | WritingEnvFile error
  | InjectingEnvConfig error
  | RestartingHarness error
  | NotRegistered string
  | ReadingPoolState error
  | ParsingPoolState error

section \<open>The warm pool: slots and the manager\<close>

text \<open>
  \<open>SlotState\<close> is a string type in the source, with four named constants; a slot table
  read from disk may hold any string there.
\<close>

type_synonym SlotState = string

definition SlotIdle :: SlotState where "SlotIdle = ''idle''"

definition SlotActive :: SlotState where "SlotActive = ''active''"

definition SlotCold :: SlotState where "SlotCold = ''cold''"

definition SlotCreating :: SlotState where "SlotCreating = ''creating''"

record VMSlot =
  Name :: string
  State :: SlotState
  AgentID :: string
  Project :: string
  Tool :: string
  Branch :: string
  Issue :: string
  VMIP :: string
  CreatedAt :: time
  ClaimedAt :: time

record PoolConfig =
  WarmSize :: int
  MaxVMs :: int
  MasterName :: string

text \<open>
  The manager's fields that its operations read and write under the mutex: the
  configuration, the slot table in insertion order and the naming counter. Each operation
  below is one run of the source function with nothing else interleaved; what the
  hypervisor driver, the clock and the state file answer is an argument of the operation.
\<close>

record Manager =
  cfg :: PoolConfig
  slots :: "VMSlot list"
  counter :: int

text \<open>
  Every loop of the manager that looks a slot up has the same shape: walk the table from
  the front and stop at the first slot that passes a test. \<open>first_index\<close> is that walk;
  it returns the index the loop stops at, or \<open>None\<close> when the loop runs off the end.
\<close>

fun first_index :: "('a \<Rightarrow> bool) \<Rightarrow> 'a list \<Rightarrow> nat option" where
  "first_index P [] = None"
| "first_index P (x # xs) = (if P x then Some 0 else map_option Suc (first_index P xs))"

subsection \<open>Claim\<close>

text \<open>
  \<open>Claim\<close> takes the first idle slot. \<open>now\<close> is the clock reading and \<open>getVMIP\<close>
  what \<open>lima.GetVMIP\<close> answers for a VM name (\<open>Inl\<close> when the probe fails, which is
  only logged). A failure to persist is logged too and changes nothing, so it is no
  argument here. The replenish run that \<open>Claim\<close> starts in the background is a separate
  run of \<open>Replenish\<close>.
\<close>

definition Claim :: "time \<Rightarrow> (string \<Rightarrow> error + string) \<Rightarrow> Manager \<Rightarrow> string \<Rightarrow> string
    \<Rightarrow> (error + VMSlot) \<times> Manager" where
  "Claim now getVMIP m agentID project =
     (case first_index (\<lambda>s. State s = SlotIdle) (slots m) of
        Some i \<Rightarrow>
          (let s1 = (slots m ! i)\<lparr>State := SlotActive, AgentID := agentID, Project := project,
                                  ClaimedAt := now\<rparr>;
               s2 = (case getVMIP (Name s1) of Inl err \<Rightarrow> s1 | Inr ip \<Rightarrow> s1\<lparr>VMIP := ip\<rparr>)
           in (Inr s2, m\<lparr>slots := (slots m)[i := s2]\<rparr>))
      | None \<Rightarrow> (Inl NoWarmVMs, m))"

subsection \<open>Release\<close>

text \<open>
  \<open>Release\<close> stops at the first slot with the given name and returns what \<open>persist\<close>
  returns (\<open>None\<close> when the state file was written).
\<close>

definition Release :: "error option \<Rightarrow> Manager \<Rightarrow> string \<Rightarrow> error option \<times> Manager" where
  "Release persist m name =
     (case first_index (\<lambda>s. Name s = name) (slots m) of
        Some i \<Rightarrow>
          (persist,
           m\<lparr>slots := (slots m)[i := (slots m ! i)\<lparr>State := SlotCold, AgentID := [], Project := []\<rparr>]\<rparr>)
      | None \<Rightarrow> (Some (NotInPool name), m))"

subsection \<open>GetSlot\<close>

definition GetSlot :: "Manager \<Rightarrow> string \<Rightarrow> VMSlot option" where
  "GetSlot m name =
     (case first_index (\<lambda>s. Name s = name \<or> AgentID s = name) (slots m) of
        Some i \<Rightarrow> Some (slots m ! i)
      | None \<Rightarrow> None)"

subsection \<open>Destroy and Drain\<close>

text \<open>
  \<open>Destroy\<close> removes the first slot with the given name from the table and then asks
  the driver to delete the VM; \<open>delete\<close> is what \<open>client.Delete\<close> answers for a name.
  The slot stays removed when the driver fails. \<open>Drain\<close> collects the names of the idle
  slots and destroys them one after the other, logging the errors.
\<close>

definition Destroy :: "(string \<Rightarrow> error option) \<Rightarrow> Manager \<Rightarrow> string \<Rightarrow> error option \<times> Manager" where
  "Destroy delete m name =
     (case first_index (\<lambda>s. Name s = name) (slots m) of
        None \<Rightarrow> (Some (NotInPool name), m)
      | Some idx \<Rightarrow>
          (let m' = m\<lparr>slots := take idx (slots m) @ drop (idx + 1) (slots m)\<rparr>
           in case delete name of
                Some err \<Rightarrow> (Some (DeletingVM name err), m')
              | None \<Rightarrow> (None, m')))"

definition Drain :: "(string \<Rightarrow> error option) \<Rightarrow> Manager \<Rightarrow> Manager" where
  "Drain delete m =
     (let toDestroy = map Name (filter (\<lambda>s. State s = SlotIdle) (slots m))
      in foldl (\<lambda>m' name. snd (Destroy delete m' name)) m toDestroy)"

subsection \<open>reconcile\<close>

text \<open>
  \<open>reconcile\<close> keeps the slots whose name the hypervisor lists; \<open>listed\<close> is what
  \<open>client.List\<close> answers. Of an instance only the name and the status are read.
\<close>

record Instance =
  InstName :: string
  InstStatus :: string

definition reconcile :: "error + Instance list \<Rightarrow> Manager \<Rightarrow> Manager" where
  "reconcile listed m =
     (case listed of
        Inl err \<Rightarrow> m
      | Inr instances \<Rightarrow>
          (let limaVMs = foldl (\<lambda>vms inst. vms(InstName inst \<mapsto> InstStatus inst)) Map.empty instances
           in m\<lparr>slots := filter (\<lambda>s. limaVMs (Name s) \<noteq> None) (slots m)\<rparr>))"

subsection \<open>Replenish\<close>

text \<open>
  What a run of \<open>Replenish\<close> meets outside the manager, by iteration of its loop: whether
  the context is done or the stop channel closed when the iteration starts, the clock
  reading, and what \<open>client.Clone\<close> answers.
\<close>

record CloneOptions =
  Source :: string
  Target :: string
  Start :: bool
  Timeout :: int

record ReplenishEnv =
  cancelled :: "int \<Rightarrow> bool"
  clock :: "int \<Rightarrow> time"
  clone :: "int \<Rightarrow> CloneOptions \<Rightarrow> error option"

text \<open>
  The first locked section computes how many VMs to create; \<open>None\<close> is the early return.
\<close>

definition Replenish_needed :: "Manager \<Rightarrow> int option" where
  "Replenish_needed m =
     (let warmCount = int (length (filter (\<lambda>s. State s = SlotIdle) (slots m)));
          total = int (length (slots m));
          needed = wrap64 (WarmSize (cfg m) - warmCount)
      in if needed \<le> 0 \<or> wrap64 (total + needed) > MaxVMs (cfg m) then
           (let needed' = (if wrap64 (total + needed) > MaxVMs (cfg m)
                           then wrap64 (MaxVMs (cfg m) - total) else needed)
            in if needed' \<le> 0 then None else Some needed')
         else Some needed)"

text \<open>
  The loop body has two locked sections. The first advances the counter and appends a
  slot in state creating, named by \<open>fmt.Sprintf("warm-%d", m.counter)\<close>; the second,
  after the clone, looks the slot up by its name again and either removes it (clone
  failed) or marks it idle.
\<close>

definition warm_name :: "int \<Rightarrow> string" where
  "warm_name c = ''warm-'' @ sprint_d c"

definition Replenish_reserve :: "time \<Rightarrow> Manager \<Rightarrow> string \<times> Manager" where
  "Replenish_reserve now m =
     (let c = wrap64 (counter m + 1);
          name = warm_name c
      in (name,
          m\<lparr>counter := c,
            slots := slots m @
              [\<lparr>Name = name, State = SlotCreating, AgentID = [], Project = [], Tool = [],
                Branch = [], Issue = [], VMIP = [], CreatedAt = now, ClaimedAt = zero_time\<rparr>]\<rparr>))"

definition Replenish_settle :: "error option \<Rightarrow> string \<Rightarrow> Manager \<Rightarrow> Manager" where
  "Replenish_settle err name m =
     (case err of
        Some e \<Rightarrow>
          (case first_index (\<lambda>s. Name s = name) (slots m) of
             Some j \<Rightarrow> m\<lparr>slots := take j (slots m) @ drop (j + 1) (slots m)\<rparr>
           | None \<Rightarrow> m)
      | None \<Rightarrow>
          (case first_index (\<lambda>s. Name s = name) (slots m) of
             Some j \<Rightarrow> m\<lparr>slots := (slots m)[j := (slots m ! j)\<lparr>State := SlotIdle\<rparr>]\<rparr>
           | None \<Rightarrow> m))"

text \<open>
  The loop returns the manager states at the end of its locked sections, in order: these
  are the states another holder of the mutex can see while the run is under way. An
  iteration that finds the run cancelled returns at once.
\<close>

function Replenish_loop :: "ReplenishEnv \<Rightarrow> int \<Rightarrow> int \<Rightarrow> Manager \<Rightarrow> Manager list" where
  "Replenish_loop env i needed m =
     (if i < needed then
        (if cancelled env i then []
         else
           (let (name, m1) = Replenish_reserve (clock env i) m;
                err = clone env i \<lparr>Source = MasterName (cfg m1), Target = name, Start = True,
                                   Timeout = 5 * 60 * 1000000000\<rparr>;
                m2 = Replenish_settle err name m1
            in m1 # m2 # Replenish_loop env (i + 1) needed m2))
      else [])"
  by pat_completeness auto

termination
  by (relation "measure (\<lambda>(env, i, needed, m). nat (needed - i))") auto

declare Replenish_loop.simps [simp del]

definition Replenish_trace :: "ReplenishEnv \<Rightarrow> Manager \<Rightarrow> Manager list" where
  "Replenish_trace env m =
     (case Replenish_needed m of
        None \<Rightarrow> []
      | Some needed \<Rightarrow> Replenish_loop env 0 needed m)"

definition Replenish :: "ReplenishEnv \<Rightarrow> Manager \<Rightarrow> Manager" where
  "Replenish env m = last (m # Replenish_trace env m)"

text \<open>The invariant of the data model: a slot is active exactly when it has an agent.\<close>

definition pool_invariant :: "Manager \<Rightarrow> bool" where
  "pool_invariant m = (\<forall>s\<in>set (slots m). State s = SlotActive \<longleftrightarrow> AgentID s \<noteq> [])"

subsection \<open>Pools written out\<close>

text \<open>
  The pool tests build slots with composite literals that name a few fields and leave the
  rest at their zero values; \<open>slot_lit\<close> is such a literal, \<open>test_cfg\<close> the configuration
  of \<open>setupTestPool\<close>.
\<close>

definition slot_lit :: "string \<Rightarrow> SlotState \<Rightarrow> string \<Rightarrow> VMSlot" where
  "slot_lit n st a =
     \<lparr>Name = n, State = st, AgentID = a, Project = [], Tool = [], Branch = [], Issue = [],
      VMIP = [], CreatedAt = zero_time, ClaimedAt = zero_time\<rparr>"

definition test_cfg :: PoolConfig where
  "test_cfg = \<lparr>WarmSize = 3, MaxVMs = 10, MasterName = ''agent-master''\<rparr>"

definition test_pool :: "VMSlot list \<Rightarrow> int \<Rightarrow> Manager" where
  "test_pool ss c = \<lparr>cfg = test_cfg, slots = ss, counter = c\<rparr>"

subsection \<open>Reading decimal digits back\<close>

text \<open>
  The inverse of \<open>digits10\<close>: the value of a digit string. It is used to show that two
  counters with the same VM name are equal.
\<close>

definition digit_val :: "char \<Rightarrow> nat" where
  "digit_val c = of_char c - 48"

definition undigits :: "string \<Rightarrow> nat" where
  "undigits cs = foldl (\<lambda>a c. 10 * a + digit_val c) 0 cs"

section \<open>Replenish as the specification describes it\<close>

text \<open>
  The specification's account of one run, written out next to the code: the number of VMs
  to create is \<open>min(warmSize - idleCount, maxVMs - totalSlots)\<close>, none when that is not
  positive; each of them gets the next counter value and a slot in state creating at the
  end of the table (first state of the pair), which then becomes idle when the clone
  succeeded and is taken out again when it failed (second state of the pair).
\<close>

definition idleCount :: "Manager \<Rightarrow> int" where
  "idleCount m = int (length (filter (\<lambda>s. State s = SlotIdle) (slots m)))"

definition totalSlots :: "Manager \<Rightarrow> int" where
  "totalSlots m = int (length (slots m))"

definition spec_needed :: "Manager \<Rightarrow> int" where
  "spec_needed m = max 0 (min (WarmSize (cfg m) - idleCount m) (MaxVMs (cfg m) - totalSlots m))"

definition new_slot :: "string \<Rightarrow> SlotState \<Rightarrow> time \<Rightarrow> VMSlot" where
  "new_slot name st now =
     \<lparr>Name = name, State = st, AgentID = [], Project = [], Tool = [], Branch = [], Issue = [],
      VMIP = [], CreatedAt = now, ClaimedAt = zero_time\<rparr>"

fun Replenish_spec :: "ReplenishEnv \<Rightarrow> int \<Rightarrow> nat \<Rightarrow> Manager \<Rightarrow> Manager list" where
  "Replenish_spec env i 0 m = []"
| "Replenish_spec env i (Suc n) m =
     (let name = warm_name (counter m + 1);
          inserted = m\<lparr>counter := counter m + 1,
                       slots := slots m @ [new_slot name SlotCreating (clock env i)]\<rparr>;
          settled =
            (case clone env i \<lparr>Source = MasterName (cfg m), Target = name, Start = True,
                                Timeout = 300000000000\<rparr> of
               None \<Rightarrow> m\<lparr>counter := counter m + 1,
                          slots := slots m @ [new_slot name SlotIdle (clock env i)]\<rparr>
             | Some err \<Rightarrow> m\<lparr>counter := counter m + 1\<rparr>)
      in inserted # settled # Replenish_spec env (i + 1) n settled)"

text \<open>
  Two conditions on a manager. \<open>sizes_in_range\<close>: the configured sizes, the length of
  the table and the counter are far enough from the limits of a 64-bit integer that no
  sum or difference of the run wraps around. \<open>names_fresh\<close>: no slot of the table has
  a name the counter has yet to issue.
\<close>

definition sizes_in_range :: "Manager \<Rightarrow> bool" where
  "sizes_in_range m \<longleftrightarrow>
     \<bar>WarmSize (cfg m)\<bar> < 2 ^ 62 \<and> \<bar>MaxVMs (cfg m)\<bar> < 2 ^ 62 \<and>
     int (length (slots m)) < 2 ^ 62 \<and> \<bar>counter m\<bar> < 2 ^ 62"

definition names_fresh :: "Manager \<Rightarrow> bool" where
  "names_fresh m \<longleftrightarrow> (\<forall>s\<in>set (slots m). \<forall>k>counter m. Name s \<noteq> warm_name k)"

text \<open>The two states one iteration of the specification's loop goes through.\<close>

definition inserted_state :: "ReplenishEnv \<Rightarrow> int \<Rightarrow> Manager \<Rightarrow> Manager" where
  "inserted_state env i m =
     m\<lparr>counter := counter m + 1,
       slots := slots m @ [new_slot (warm_name (counter m + 1)) SlotCreating (clock env i)]\<rparr>"

definition settled_state :: "ReplenishEnv \<Rightarrow> int \<Rightarrow> Manager \<Rightarrow> Manager" where
  "settled_state env i m =
     (case clone env i \<lparr>Source = MasterName (cfg m), Target = warm_name (counter m + 1),
                         Start = True, Timeout = 300000000000\<rparr> of
        None \<Rightarrow> m\<lparr>counter := counter m + 1,
                   slots := slots m @ [new_slot (warm_name (counter m + 1)) SlotIdle (clock env i)]\<rparr>
      | Some err \<Rightarrow> m\<lparr>counter := counter m + 1\<rparr>)"

subsection \<open>Pools and environments to run Replenish on\<close>

text \<open>
  \<open>stale_pool\<close> is a table whose counter is behind its names: the only slot is
  \<open>warm-1\<close>, active for an agent, and the counter is 0. The pool tests build such tables
  by appending \<open>warm-1\<close> to a new manager. In \<open>steady_env\<close> no run is cancelled and
  every clone succeeds.
\<close>

definition stale_pool :: Manager where
  "stale_pool =
     \<lparr>cfg = \<lparr>WarmSize = 1, MaxVMs = 2, MasterName = ''agent-master''\<rparr>,
      slots = [slot_lit ''warm-1'' SlotActive ''agent-1''],
      counter = 0\<rparr>"

definition steady_env :: ReplenishEnv where
  "steady_env = \<lparr>cancelled = (\<lambda>i. False), clock = (\<lambda>i. 0), clone = (\<lambda>i opts. None)\<rparr>"

text \<open>
  \<open>warm_pool\<close> has one cold slot and room for two more VMs; in \<open>flaky_env\<close> the clone
  works in the first iteration and fails in the second.
\<close>

definition warm_pool :: Manager where
  "warm_pool =
     \<lparr>cfg = \<lparr>WarmSize = 2, MaxVMs = 3, MasterName = ''agent-master''\<rparr>,
      slots = [slot_lit ''warm-1'' SlotCold []],
      counter = 1\<rparr>"

definition flaky_env :: ReplenishEnv where
  "flaky_env =
     \<lparr>cancelled = (\<lambda>i. False), clock = (\<lambda>i. 0),
      clone = (\<lambda>i opts. if i = 1 then Some IOError else None)\<rparr>"

section \<open>Dispatch\<close>

text \<open>
  The task configuration and its validation, as \<open>ValidateTask\<close> has them: four checks in
  order, then the defaults for \<open>MaxTime\<close> and \<open>Branch\<close>, which change the task only.
  The environment map of a request is kept as a list of pairs.
\<close>

record TaskConfig =
  AgentID_t :: string
  Project_t :: string
  RepoURL_t :: string
  Issue_t :: string
  Tool_t :: string
  Prompt_t :: string
  Branch_t :: string
  MaxTime_t :: int
  MaxTokens_t :: int
  EnvVars_t :: "(string \<times> string) list"
  HostAddr_t :: string
  DispatchedAt_t :: time





text \<open>
  What a dispatch meets outside the manager: the clock (\<open>UnixNano\<close> for the agent id,
  the dispatch time, the time of the claim), the address probe of \<open>Claim\<close>, the temporary
  directory (\<open>os.TempDir\<close>) and the platform's \<open>filepath.Join\<close> of a directory and a
  file name, and the results of writing the two temporary files, of the driver's \<open>Copy\<close>
  and \<open>Shell\<close>, and of persisting in \<open>Release\<close>. \<open>go_rem\<close> is Go's \<open>%\<close>, whose result has
  the sign of the dividend.
\<close>

datatype CopyDirection = CopyToVM | CopyFromVM

record CopyOptions =
  Instance_c :: string
  Direction_c :: CopyDirection
  LocalPath_c :: string
  VMPath_c :: string

record ShellOptions =
  Instance_sh :: string
  Command_sh :: string
  Args_sh :: "string list"
  Timeout_sh :: int

record DispatchEnv =
  env_unixNano :: int
  env_dispatchedAt :: time
  env_claimedAt :: time
  env_getVMIP :: "string \<Rightarrow> error + string"
  env_tempDir :: string
  env_Join :: "string \<Rightarrow> string \<Rightarrow> string"
  env_WriteTaskConfig :: "TaskConfig \<Rightarrow> string \<Rightarrow> error option"
  env_Copy :: "CopyOptions \<Rightarrow> error option"
  env_WriteFile :: "string \<Rightarrow> string \<Rightarrow> error option"
  env_Shell :: "ShellOptions \<Rightarrow> error + string"
  env_persist :: "error option"

definition go_rem :: "int \<Rightarrow> int \<Rightarrow> int" where
  "go_rem a b = sgn a * (\<bar>a\<bar> mod \<bar>b\<bar>)"

definition Dispatch_agentID :: "DispatchEnv \<Rightarrow> string" where
  "Dispatch_agentID env = ''agent-'' @ sprint_d (go_rem (env_unixNano env) 100000)"





definition failing_shell_env :: DispatchEnv where
  "failing_shell_env =
     \<lparr>env_unixNano = 1700000000000012345, env_dispatchedAt = 1, env_claimedAt = 2,
      env_getVMIP = (\<lambda>name. Inr ''192.168.64.5''), env_tempDir = ''/tmp'',
      env_Join = (\<lambda>dir name. dir @ ''/'' @ name),
      env_WriteTaskConfig = (\<lambda>tc path. None), env_Copy = (\<lambda>opts. None),
      env_WriteFile = (\<lambda>path content. None), env_Shell = (\<lambda>opts. Inl IOError),
      env_persist = None\<rparr>"

section \<open>The pool state file\<close>

text \<open>
  \<open>Load\<close> and \<open>Save\<close> of the state store. What they call is not code of the repository
  and is an argument of the model: \<open>json_codec\<close> is \<open>encoding/json\<close> for a snapshot
  (\<open>MarshalIndent\<close>, and \<open>Unmarshal\<close> into a given value, which returns that value as far
  as it got when it fails); the disk maps a path to what \<open>os.ReadFile\<close> finds there;
  \<open>SaveEnv\<close> says whether \<open>os.MkdirAll\<close> and \<open>os.WriteFile\<close> go through, and what a
  failed write leaves at the path.
\<close>

type_synonym bytes = string

datatype disk_file = Absent | Unreadable | Content bytes

record PersistentState =
  Slots :: "VMSlot list"
  Counter :: int

definition zero_state :: PersistentState where
  "zero_state = \<lparr>Slots = [], Counter = 0\<rparr>"

record json_codec =
  MarshalIndent :: "PersistentState \<Rightarrow> error + bytes"
  Unmarshal :: "bytes \<Rightarrow> PersistentState \<Rightarrow> error option \<times> PersistentState"

record stateStore =
  path :: string

record SaveEnv =
  MkdirAll :: "error option"
  WriteFile :: "error option"
  left_behind :: disk_file

definition Load :: "json_codec \<Rightarrow> (string \<Rightarrow> disk_file) \<Rightarrow> stateStore \<Rightarrow> PersistentState \<times> error option" where
  "Load json disk s =
     (let state = zero_state
      in case disk (path s) of
           Absent \<Rightarrow> (state, None)
         | Unreadable \<Rightarrow> (state, Some (ReadingPoolState IOError))
         | Content data \<Rightarrow>
             (case Unmarshal json data state of
                (Some err, state') \<Rightarrow> (state', Some (ParsingPoolState err))
              | (None, state') \<Rightarrow> (state', None)))"

definition Save :: "json_codec \<Rightarrow> SaveEnv \<Rightarrow> (string \<Rightarrow> disk_file) \<Rightarrow> stateStore \<Rightarrow> PersistentState
    \<Rightarrow> error option \<times> (string \<Rightarrow> disk_file)" where
  "Save json os disk s state =
     (case MkdirAll os of
        Some err \<Rightarrow> (Some err, disk)
      | None \<Rightarrow>
          (case MarshalIndent json state of
             Inl err \<Rightarrow> (Some err, disk)
           | Inr data \<Rightarrow>
               (case WriteFile os of
                  Some err \<Rightarrow> (Some err, disk(path s := left_behind os))
                | None \<Rightarrow> (None, disk(path s := Content data)))))"

section \<open>The states a manager reaches\<close>








section \<open>The registry: agents, events and subscribers\<close>

text \<open>
  A registration as \<open>internal/registry/types.go\<close> declares it. The fields carry the suffix
  \<open>_r\<close> because a slot has fields of the same names. The store keeps pointers to
  registrations; the model keeps their values, and an event carries the value the
  registration had when the event was made (\<open>None\<close> for a nil pointer). The store of the
  model holds no nil entry: \<open>Register\<close> never stores one.
\<close>

record AgentRegistration =
  AgentID_r :: string
  VMName_r :: string
  VMIP_r :: string
  Project_r :: string
  Tool_r :: string
  Branch_r :: string
  Message_r :: string
  Ports_r :: "int list"
  State_r :: string
  RegisteredAt_r :: time
  LastHeartbeat_r :: time

type_synonym StoreEventType = string

definition EventAgentRegistered :: StoreEventType where "EventAgentRegistered = ''agent.registered''"

definition EventAgentDeregistered :: StoreEventType where "EventAgentDeregistered = ''agent.deregistered''"

definition EventAgentUpdated :: StoreEventType where "EventAgentUpdated = ''agent.updated''"

record StoreEvent =
  Type_e :: StoreEventType
  AgentID_e :: string
  Agent_e :: "AgentRegistration option"

text \<open>
  A subscriber is a buffered channel: the events waiting in it, oldest first, and its
  capacity. A send in a \<open>select\<close> with a \<open>default\<close> branch goes through when the buffer
  has room and is skipped otherwise. Receivers run in other goroutines; within one run of
  a store operation the buffer only grows.
\<close>

record Chan =
  buf :: "StoreEvent list"
  cap :: nat

record Store =
  agents :: "string \<rightharpoonup> AgentRegistration"
  subscribers :: "Chan list"

definition Subscribe :: "Store \<Rightarrow> nat \<times> Store" where
  "Subscribe s = (length (subscribers s), s\<lparr>subscribers := subscribers s @ [\<lparr>buf = [], cap = 64\<rparr>]\<rparr>)"

definition try_send :: "StoreEvent \<Rightarrow> Chan \<Rightarrow> Chan" where
  "try_send event ch = (if length (buf ch) < cap ch then ch\<lparr>buf := buf ch @ [event]\<rparr> else ch)"

definition notify :: "StoreEvent \<Rightarrow> Store \<Rightarrow> Store" where
  "notify event s = s\<lparr>subscribers := map (try_send event) (subscribers s)\<rparr>"

text \<open>
  \<open>persist\<close> rewrites the registry file and drops every error; it reads the map and
  changes nothing in memory, so the operations below do not mention it.
\<close>

definition Register :: "AgentRegistration \<Rightarrow> Store \<Rightarrow> Store" where
  "Register reg s =
     notify \<lparr>Type_e = EventAgentRegistered, AgentID_e = AgentID_r reg, Agent_e = Some reg\<rparr>
       (s\<lparr>agents := (agents s)(AgentID_r reg \<mapsto> reg)\<rparr>)"

definition Deregister :: "string \<Rightarrow> Store \<Rightarrow> Store" where
  "Deregister agentID s =
     (let agent = agents s agentID
      in notify \<lparr>Type_e = EventAgentDeregistered, AgentID_e = agentID, Agent_e = agent\<rparr>
           (s\<lparr>agents := (agents s)(agentID := None)\<rparr>))"

definition UpdateState :: "time \<Rightarrow> string \<Rightarrow> string \<Rightarrow> string \<Rightarrow> string \<Rightarrow> Store
    \<Rightarrow> error option \<times> Store" where
  "UpdateState now agentID state message branch s =
     (case agents s agentID of
        None \<Rightarrow> (Some (NotRegistered agentID), s)
      | Some reg \<Rightarrow>
          (let reg1 = reg\<lparr>State_r := state, LastHeartbeat_r := now\<rparr>;
               reg2 = (if message \<noteq> [] then reg1\<lparr>Message_r := message\<rparr> else reg1);
               reg3 = (if branch \<noteq> [] then reg2\<lparr>Branch_r := branch\<rparr> else reg2)
           in (None,
               notify \<lparr>Type_e = EventAgentUpdated, AgentID_e = agentID, Agent_e = Some reg3\<rparr>
                 (s\<lparr>agents := (agents s)(agentID \<mapsto> reg3)\<rparr>))))"

subsection \<open>The status endpoint\<close>

text \<open>
  The handler of \<open>POST /status\<close> in \<open>internal/registry/server.go\<close> calls
  \<open>UpdateState\<close> with two arguments, the agent id and the state: the signature of the
  store in \<open>internal/registry/store.go\<close>, which sets the state and nothing else.
  \<open>UpdateState_2\<close> is that function.

  A request body is a JSON object; \<open>StatusBody\<close> holds the members the agents send, a
  missing member being the empty string. The handler decodes into a struct with the
  fields \<open>AgentID\<close>, \<open>State\<close> and \<open>Message\<close>: a \<open>branch\<close> member is not read. A body
  that does not decode is \<open>Inl\<close>.
\<close>

definition UpdateState_2 :: "string \<Rightarrow> string \<Rightarrow> Store \<Rightarrow> error option \<times> Store" where
  "UpdateState_2 agentID state s =
     (case agents s agentID of
        None \<Rightarrow> (Some (NotRegistered agentID), s)
      | Some reg \<Rightarrow> (None, s\<lparr>agents := (agents s)(agentID \<mapsto> reg\<lparr>State_r := state\<rparr>)\<rparr>))"

record StatusBody =
  agentID_b :: string
  state_b :: string
  message_b :: string
  branch_b :: string

record StatusReport =
  AgentID_q :: string
  State_q :: string
  Message_q :: string

datatype Response = ErrorResponse error | OkResponse

definition StatusBadRequest :: nat where "StatusBadRequest = 400"

definition StatusNotFound :: nat where "StatusNotFound = 404"

definition StatusOK :: nat where "StatusOK = 200"

definition handleStatus :: "error + StatusBody \<Rightarrow> Store \<Rightarrow> (nat \<times> Response) \<times> Store" where
  "handleStatus body s =
     (case body of
        Inl err \<Rightarrow> ((StatusBadRequest, ErrorResponse err), s)
      | Inr b \<Rightarrow>
          (let report = \<lparr>AgentID_q = agentID_b b, State_q = state_b b, Message_q = message_b b\<rparr>
           in case UpdateState_2 (AgentID_q report) (State_q report) s of
                (Some err, s') \<Rightarrow> ((StatusNotFound, ErrorResponse err), s')
              | (None, s') \<Rightarrow> ((StatusOK, OkResponse), s')))"

definition reg_lit :: "string \<Rightarrow> string \<Rightarrow> AgentRegistration" where
  "reg_lit a st =
     \<lparr>AgentID_r = a, VMName_r = [], VMIP_r = [], Project_r = [], Tool_r = [], Branch_r = [],
      Message_r = [], Ports_r = [], State_r = st, RegisteredAt_r = zero_time,
      LastHeartbeat_r = zero_time\<rparr>"

definition test_store :: Store where
  "test_store =
     \<lparr>agents = Map.empty,
      subscribers = [\<lparr>buf = [], cap = 64\<rparr>,
                     \<lparr>buf = [\<lparr>Type_e = EventAgentUpdated, AgentID_e = ''agent-0'', Agent_e = None\<rparr>],
                      cap = 1\<rparr>]\<rparr>"

section \<open>Log streams\<close>

text \<open>
  A client is a pointer to a connection; the model uses a number for it. The set of
  subscribers of a stream is a Go map from clients to \<open>true\<close>, kept here as the list of
  its keys: \<open>List.insert\<close> adds a key that is not there yet, \<open>removeAll\<close> deletes one,
  and the list is empty exactly when \<open>len\<close> of the map is zero.
  The streams map is an association list over agent ids, read with \<open>map_of\<close> and
  written with \<open>AList.update\<close> and \<open>AList.delete\<close>.

  Starting a stream makes a fresh cancellable context and starts \<open>runStream\<close> in a
  goroutine of its own; the manager of the model numbers the contexts (\<open>next_ctx\<close>),
  records every \<open>runStream\<close> it started (\<open>started\<close>) and every context whose cancel
  function it called (\<open>cancelled_ctxs\<close>). A log-tail subprocess is alive at most as long as
  its context is not cancelled. The suffix \<open>_log\<close> tells \<open>Subscribe\<close> and \<open>Unsubscribe\<close>
  of this manager from those of the registry.
\<close>

type_synonym client = nat

record logStream =
  agentID_s :: string
  vmName_s :: string
  cancel_s :: nat
  clients_s :: "client list"

record LogProc =
  ctx_p :: nat
  agentID_p :: string
  vmName_p :: string

record LogStreamManager =
  streams :: "(string \<times> logStream) list"
  next_ctx :: nat
  started :: "LogProc list"
  cancelled_ctxs :: "nat set"

definition NewLogStreamManager :: LogStreamManager where
  "NewLogStreamManager = \<lparr>streams = [], next_ctx = 0, started = [], cancelled_ctxs = {}\<rparr>"

definition Subscribe_log :: "Manager \<Rightarrow> string \<Rightarrow> client \<Rightarrow> LogStreamManager \<Rightarrow> LogStreamManager" where
  "Subscribe_log poolMgr agentID client m =
     (case map_of (streams m) agentID of
        None \<Rightarrow>
          (case GetSlot poolMgr agentID of
             None \<Rightarrow> m
           | Some slot \<Rightarrow>
               (let ctx = next_ctx m;
                    stream = \<lparr>agentID_s = agentID, vmName_s = Name slot, cancel_s = ctx, clients_s = []\<rparr>
                in m\<lparr>streams := AList.update agentID (stream\<lparr>clients_s := List.insert client (clients_s stream)\<rparr>)
                                 (streams m),
                     next_ctx := ctx + 1,
                     started := started m @ [\<lparr>ctx_p = ctx, agentID_p = agentID, vmName_p = Name slot\<rparr>]\<rparr>))
      | Some stream \<Rightarrow>
          m\<lparr>streams := AList.update agentID (stream\<lparr>clients_s := List.insert client (clients_s stream)\<rparr>)
                        (streams m)\<rparr>)"

text \<open>
  \<open>Unsubscribe\<close> and the loop body of \<open>UnsubscribeAll\<close> are the same statements:
  delete the client, and when no client is left cancel the context and delete the record.
\<close>

definition remove_client :: "string \<Rightarrow> logStream \<Rightarrow> client \<Rightarrow> LogStreamManager \<Rightarrow> LogStreamManager" where
  "remove_client agentID stream client m =
     (let cs = removeAll client (clients_s stream);
          remaining = length cs
      in if remaining = 0 then
           m\<lparr>streams := AList.delete agentID (streams m),
             cancelled_ctxs := insert (cancel_s stream) (cancelled_ctxs m)\<rparr>
         else m\<lparr>streams := AList.update agentID (stream\<lparr>clients_s := cs\<rparr>) (streams m)\<rparr>)"

definition Unsubscribe_log :: "string \<Rightarrow> client \<Rightarrow> LogStreamManager \<Rightarrow> LogStreamManager" where
  "Unsubscribe_log agentID client m =
     (case map_of (streams m) agentID of
        None \<Rightarrow> m
      | Some stream \<Rightarrow> remove_client agentID stream client m)"

definition UnsubscribeAll :: "client \<Rightarrow> LogStreamManager \<Rightarrow> LogStreamManager" where
  "UnsubscribeAll client m =
     foldl (\<lambda>m' (agentID, stream). remove_client agentID stream client m') m (streams m)"

text \<open>A sequence of calls, run from the manager \<open>NewLogStreamManager\<close> returns.\<close>

datatype log_call =
    CallSubscribe Manager string client
  | CallUnsubscribe string client
  | CallUnsubscribeAll client

fun do_call :: "LogStreamManager \<Rightarrow> log_call \<Rightarrow> LogStreamManager" where
  "do_call m (CallSubscribe poolMgr agentID client) = Subscribe_log poolMgr agentID client m"
| "do_call m (CallUnsubscribe agentID client) = Unsubscribe_log agentID client m"
| "do_call m (CallUnsubscribeAll client) = UnsubscribeAll client m"

definition run_calls :: "log_call list \<Rightarrow> LogStreamManager" where
  "run_calls calls = foldl do_call NewLogStreamManager calls"

section \<open>One log stream per agent\<close>

text \<open>
  What holds of every manager state a sequence of calls can reach: the keys of the
  streams map are distinct; a record has a subscriber, carries its own key, has a context
  that is not cancelled and a started process of that context; contexts are numbered
  below \<open>next_ctx\<close>; and a started process whose context is not cancelled is the process
  of the record of its agent.
\<close>

definition log_streams_ok :: "LogStreamManager \<Rightarrow> bool" where
  "log_streams_ok m \<longleftrightarrow>
     distinct (map fst (streams m)) \<and>
     (\<forall>a st. map_of (streams m) a = Some st \<longrightarrow>
        clients_s st \<noteq> [] \<and> agentID_s st = a \<and> cancel_s st \<notin> cancelled_ctxs m \<and>
        (\<exists>p\<in>set (started m). ctx_p p = cancel_s st \<and> agentID_p p = a)) \<and>
     (\<forall>p\<in>set (started m). ctx_p p < next_ctx m) \<and>
     (\<forall>c\<in>cancelled_ctxs m. c < next_ctx m) \<and>
     distinct (map ctx_p (started m)) \<and>
     (\<forall>p\<in>set (started m). ctx_p p \<notin> cancelled_ctxs m \<longrightarrow>
        (\<exists>st. map_of (streams m) (agentID_p p) = Some st \<and> cancel_s st = ctx_p p))"

definition test_calls :: "log_call list" where
  "test_calls =
     [CallSubscribe (test_pool [slot_lit ''warm-1'' SlotActive ''agent-42''] 1) ''agent-42'' 1,
      CallSubscribe (test_pool [slot_lit ''warm-1'' SlotActive ''agent-42''] 1) ''agent-42'' 2,
      CallUnsubscribe ''agent-42'' 1]"

section \<open>Facts about the table walk\<close>

lemma first_index_None: "first_index P xs = None \<longleftrightarrow> (\<forall>x\<in>set xs. \<not> P x)"
  by (induction xs) auto

lemma first_index_Some:
  "first_index P xs = Some i \<longleftrightarrow> i < length xs \<and> P (xs ! i) \<and> (\<forall>j<i. \<not> P (xs ! j))"
proof (induction xs arbitrary: i)
  case Nil
  show ?case by simp
next
  case (Cons x xs)
  show ?case
  proof (cases "P x")
    case True
    then show ?thesis by (cases i) auto
  next
    case False
    show ?thesis
    proof (cases i)
      case 0
      with False show ?thesis by simp
    next
      case (Suc k)
      have "(\<forall>j<Suc k. \<not> P ((x # xs) ! j)) \<longleftrightarrow> (\<forall>j<k. \<not> P (xs ! j))"
        using False by (auto simp: less_Suc_eq_0_disj)
      with False Suc Cons.IH [of k] show ?thesis by auto
    qed
  qed
qed

lemma Claim_at:
  assumes "first_index (\<lambda>s. State s = SlotIdle) (slots m) = Some i"
  shows "\<exists>c. Claim now probe m agentID project = (Inr c, m\<lparr>slots := (slots m)[i := c]\<rparr>) \<and>
    Name c = Name (slots m ! i) \<and> State c = SlotActive \<and> AgentID c = agentID"
  using assms by (cases "probe (Name (slots m ! i))") (simp_all add: Claim_def Let_def)

lemma slot_states_distinct:
  "SlotIdle \<noteq> SlotActive" "SlotIdle \<noteq> SlotCold" "SlotIdle \<noteq> SlotCreating"
  "SlotActive \<noteq> SlotCold" "SlotActive \<noteq> SlotCreating" "SlotCold \<noteq> SlotCreating"
  "SlotActive \<noteq> SlotIdle" "SlotCold \<noteq> SlotIdle" "SlotCreating \<noteq> SlotIdle"
  "SlotCold \<noteq> SlotActive" "SlotCreating \<noteq> SlotActive" "SlotCreating \<noteq> SlotCold"
  by (simp_all add: SlotIdle_def SlotActive_def SlotCold_def SlotCreating_def)

section \<open>Claim takes the first idle slot\<close>

text \<open>
  C2. For every pool state, agent id and project: when no slot is idle, \<open>Claim\<close> returns
  the capacity error and the manager is unchanged; otherwise it returns no error, and with
  \<open>i\<close> the first index whose slot is idle, the table after the call is the table before
  with slot \<open>i\<close> replaced by the slot it returns: state active, the given agent id and
  project, \<open>ClaimedAt\<close> the clock reading, the address the probe found (the old one when
  the probe failed), every other field as it was. All other slots, the configuration and
  the counter are unchanged. An error is returned exactly when no slot is idle.
\<close>

theorem Claim_first_idle:
  "(isl (fst (Claim now getVMIP m agentID project)) \<longleftrightarrow> (\<forall>s\<in>set (slots m). State s \<noteq> SlotIdle)) \<and>
   ((\<forall>s\<in>set (slots m). State s \<noteq> SlotIdle) \<longrightarrow>
      Claim now getVMIP m agentID project = (Inl NoWarmVMs, m)) \<and>
   (\<forall>i. i < length (slots m) \<and> State (slots m ! i) = SlotIdle \<and>
        (\<forall>j<i. State (slots m ! j) \<noteq> SlotIdle) \<longrightarrow>
      (let c = (case getVMIP (Name (slots m ! i)) of
                  Inl err \<Rightarrow> (slots m ! i)\<lparr>State := SlotActive, AgentID := agentID,
                               Project := project, ClaimedAt := now\<rparr>
                | Inr ip \<Rightarrow> (slots m ! i)\<lparr>State := SlotActive, AgentID := agentID,
                               Project := project, ClaimedAt := now, VMIP := ip\<rparr>)
       in Claim now getVMIP m agentID project = (Inr c, m\<lparr>slots := (slots m)[i := c]\<rparr>)))"
proof (intro conjI allI impI)
  show "isl (fst (Claim now getVMIP m agentID project)) \<longleftrightarrow> (\<forall>s\<in>set (slots m). State s \<noteq> SlotIdle)"
  proof (cases "first_index (\<lambda>s. State s = SlotIdle) (slots m)")
    case None
    moreover from None have "\<forall>s\<in>set (slots m). State s \<noteq> SlotIdle"
      by (simp add: first_index_None)
    ultimately show ?thesis by (simp add: Claim_def)
  next
    case (Some i)
    moreover from Some have "\<not> (\<forall>s\<in>set (slots m). State s \<noteq> SlotIdle)"
      using first_index_None [of "\<lambda>s. State s = SlotIdle" "slots m"] by simp
    ultimately show ?thesis by (simp add: Claim_def Let_def)
  qed
next
  assume "\<forall>s\<in>set (slots m). State s \<noteq> SlotIdle"
  then have "first_index (\<lambda>s. State s = SlotIdle) (slots m) = None"
    by (simp add: first_index_None)
  then show "Claim now getVMIP m agentID project = (Inl NoWarmVMs, m)"
    by (simp add: Claim_def)
next
  fix i
  assume h: "i < length (slots m) \<and> State (slots m ! i) = SlotIdle \<and>
    (\<forall>j<i. State (slots m ! j) \<noteq> SlotIdle)"
  then have "first_index (\<lambda>s. State s = SlotIdle) (slots m) = Some i"
    by (simp add: first_index_Some)
  then show "let c = (case getVMIP (Name (slots m ! i)) of
                  Inl err \<Rightarrow> (slots m ! i)\<lparr>State := SlotActive, AgentID := agentID,
                               Project := project, ClaimedAt := now\<rparr>
                | Inr ip \<Rightarrow> (slots m ! i)\<lparr>State := SlotActive, AgentID := agentID,
                               Project := project, ClaimedAt := now, VMIP := ip\<rparr>)
       in Claim now getVMIP m agentID project = (Inr c, m\<lparr>slots := (slots m)[i := c]\<rparr>)"
    by (cases "getVMIP (Name (slots m ! i))") (simp_all add: Claim_def Let_def)
qed

theorem Claim_first_idle_witness:
  "Claim 7 (\<lambda>n. Inr ''192.168.64.5'')
     (test_pool [slot_lit ''warm-1'' SlotCold [], slot_lit ''warm-2'' SlotIdle []] 2)
     ''agent-1'' ''testproject'' =
   (Inr ((slot_lit ''warm-2'' SlotActive ''agent-1'')
           \<lparr>Project := ''testproject'', VMIP := ''192.168.64.5'', ClaimedAt := 7\<rparr>),
    test_pool [slot_lit ''warm-1'' SlotCold [],
               (slot_lit ''warm-2'' SlotActive ''agent-1'')
                 \<lparr>Project := ''testproject'', VMIP := ''192.168.64.5'', ClaimedAt := 7\<rparr>] 2)"
proof -
  let ?m = "test_pool [slot_lit ''warm-1'' SlotCold [], slot_lit ''warm-2'' SlotIdle []] 2"
  have h: "1 < length (slots ?m) \<and> State (slots ?m ! 1) = SlotIdle \<and>
      (\<forall>j<1. State (slots ?m ! j) \<noteq> SlotIdle)"
    by (simp add: test_pool_def slot_lit_def slot_states_distinct)
  note th = Claim_first_idle [of 7 "\<lambda>n. Inr ''192.168.64.5''" ?m "''agent-1''" "''testproject''",
      THEN conjunct2, THEN conjunct2, THEN spec, of 1, THEN mp, OF h]
  then show ?thesis
    by (simp add: test_pool_def slot_lit_def Let_def)
qed

section \<open>Release marks the named slot cold\<close>

text \<open>
  C4 says that \<open>Release\<close> leaves a slot that is not active unchanged. The source has no
  test of the slot's state: the first slot with the name becomes cold whatever it was. An
  idle slot is the example.
\<close>

theorem Release_idle_slot_counterexample:
  "State (slots (test_pool [slot_lit ''warm-1'' SlotIdle []] 1) ! 0) = SlotIdle \<and>
   SlotIdle \<noteq> SlotActive \<and>
   fst (Release None (test_pool [slot_lit ''warm-1'' SlotIdle []] 1) ''warm-1'') = None \<and>
   State (slots (snd (Release None (test_pool [slot_lit ''warm-1'' SlotIdle []] 1) ''warm-1'')) ! 0) = SlotCold \<and>
   snd (Release None (test_pool [slot_lit ''warm-1'' SlotIdle []] 1) ''warm-1'') \<noteq>
     test_pool [slot_lit ''warm-1'' SlotIdle []] 1"
  by (simp add: Release_def test_pool_def slot_lit_def slot_states_distinct)

text \<open>
  C4, as the code has it. \<open>Release\<close> returns the not-found error, with the manager
  unchanged, when no slot has the name. Otherwise, with \<open>i\<close> the first index whose slot
  has the name, it sets that slot's state to cold and clears its agent id and project,
  whatever the state was before, leaves every other slot as it was, and returns what
  persisting returned: so when the state file can be written, an error is returned exactly
  when no slot has the name.
\<close>

theorem Release_by_name:
  "(fst (Release None m name) = None \<longleftrightarrow> (\<exists>s\<in>set (slots m). Name s = name)) \<and>
   ((\<forall>s\<in>set (slots m). Name s \<noteq> name) \<longrightarrow>
      Release persist m name = (Some (NotInPool name), m)) \<and>
   (\<forall>i. i < length (slots m) \<and> Name (slots m ! i) = name \<and>
        (\<forall>j<i. Name (slots m ! j) \<noteq> name) \<longrightarrow>
      Release persist m name =
        (persist,
         m\<lparr>slots := (slots m)[i := (slots m ! i)\<lparr>State := SlotCold, AgentID := [], Project := []\<rparr>]\<rparr>))"
proof (intro conjI allI impI)
  show "fst (Release None m name) = None \<longleftrightarrow> (\<exists>s\<in>set (slots m). Name s = name)"
  proof (cases "first_index (\<lambda>s. Name s = name) (slots m)")
    case None
    moreover from None have "\<forall>s\<in>set (slots m). Name s \<noteq> name"
      by (simp add: first_index_None)
    ultimately show ?thesis by (simp add: Release_def)
  next
    case (Some i)
    moreover from Some have "\<exists>s\<in>set (slots m). Name s = name"
      using first_index_None [of "\<lambda>s. Name s = name" "slots m"] by simp
    ultimately show ?thesis by (simp add: Release_def)
  qed
next
  assume "\<forall>s\<in>set (slots m). Name s \<noteq> name"
  then have "first_index (\<lambda>s. Name s = name) (slots m) = None"
    by (simp add: first_index_None)
  then show "Release persist m name = (Some (NotInPool name), m)"
    by (simp add: Release_def)
next
  fix i
  assume "i < length (slots m) \<and> Name (slots m ! i) = name \<and> (\<forall>j<i. Name (slots m ! j) \<noteq> name)"
  then have "first_index (\<lambda>s. Name s = name) (slots m) = Some i"
    by (simp add: first_index_Some)
  then show "Release persist m name =
        (persist,
         m\<lparr>slots := (slots m)[i := (slots m ! i)\<lparr>State := SlotCold, AgentID := [], Project := []\<rparr>]\<rparr>)"
    by (simp add: Release_def)
qed

theorem Release_by_name_witness:
  "Release None (test_pool [slot_lit ''warm-1'' SlotIdle [], slot_lit ''warm-2'' SlotActive ''agent-1''] 2)
     ''warm-2'' =
   (None, test_pool [slot_lit ''warm-1'' SlotIdle [], slot_lit ''warm-2'' SlotCold []] 2)"
proof -
  let ?m = "test_pool [slot_lit ''warm-1'' SlotIdle [], slot_lit ''warm-2'' SlotActive ''agent-1''] 2"
  have h: "1 < length (slots ?m) \<and> Name (slots ?m ! 1) = ''warm-2'' \<and>
      (\<forall>j<1. Name (slots ?m ! j) \<noteq> ''warm-2'')"
    by (simp add: test_pool_def slot_lit_def)
  note th = Release_by_name [of ?m "''warm-2''" None,
      THEN conjunct2, THEN conjunct2, THEN spec, of 1, THEN mp, OF h]
  then show ?thesis
    by (simp add: test_pool_def slot_lit_def)
qed

section \<open>GetSlot finds a slot by VM name or by agent id\<close>

text \<open>
  C10. \<open>GetSlot m x\<close> finds nothing exactly when no slot has \<open>x\<close> as its name or as its
  agent id; otherwise it returns the first slot in insertion order that has.
\<close>

theorem GetSlot_by_name_or_agent:
  "(GetSlot m x = None \<longleftrightarrow> (\<forall>s\<in>set (slots m). Name s \<noteq> x \<and> AgentID s \<noteq> x)) \<and>
   (\<forall>i. i < length (slots m) \<and> (Name (slots m ! i) = x \<or> AgentID (slots m ! i) = x) \<and>
        (\<forall>j<i. Name (slots m ! j) \<noteq> x \<and> AgentID (slots m ! j) \<noteq> x) \<longrightarrow>
      GetSlot m x = Some (slots m ! i))"
proof (intro conjI allI impI)
  show "GetSlot m x = None \<longleftrightarrow> (\<forall>s\<in>set (slots m). Name s \<noteq> x \<and> AgentID s \<noteq> x)"
    using first_index_None [of "\<lambda>s. Name s = x \<or> AgentID s = x" "slots m"]
    by (auto simp: GetSlot_def split: option.splits)
next
  fix i
  assume "i < length (slots m) \<and> (Name (slots m ! i) = x \<or> AgentID (slots m ! i) = x) \<and>
        (\<forall>j<i. Name (slots m ! j) \<noteq> x \<and> AgentID (slots m ! j) \<noteq> x)"
  then have "first_index (\<lambda>s. Name s = x \<or> AgentID s = x) (slots m) = Some i"
    by (simp add: first_index_Some)
  then show "GetSlot m x = Some (slots m ! i)"
    by (simp add: GetSlot_def)
qed

theorem GetSlot_by_name_or_agent_witness:
  "GetSlot (test_pool [slot_lit ''warm-1'' SlotIdle [], slot_lit ''warm-2'' SlotActive ''agent-42''] 2)
     ''agent-42'' = Some (slot_lit ''warm-2'' SlotActive ''agent-42'')"
proof -
  let ?m = "test_pool [slot_lit ''warm-1'' SlotIdle [], slot_lit ''warm-2'' SlotActive ''agent-42''] 2"
  have h: "1 < length (slots ?m) \<and>
      (Name (slots ?m ! 1) = ''agent-42'' \<or> AgentID (slots ?m ! 1) = ''agent-42'') \<and>
      (\<forall>j<1. Name (slots ?m ! j) \<noteq> ''agent-42'' \<and> AgentID (slots ?m ! j) \<noteq> ''agent-42'')"
    by (simp add: test_pool_def slot_lit_def)
  note th = GetSlot_by_name_or_agent [of ?m "''agent-42''",
      THEN conjunct2, THEN spec, of 1, THEN mp, OF h]
  then show ?thesis
    by (simp add: test_pool_def slot_lit_def)
qed

section \<open>Decimal names are distinct\<close>

text \<open>
  Reading the digits back gives the number, so two numbers with the same decimal text are
  equal, and so are two counters with the same VM name.
\<close>

lemma of_char_digit_char: "d < 10 \<Longrightarrow> of_char (digit_char d) = (48 + d :: nat)"
  by (simp add: digit_char_def)

lemma digit_val_digit_char: "d < 10 \<Longrightarrow> digit_val (digit_char d) = d"
  by (simp add: digit_val_def of_char_digit_char)

lemma undigits_snoc: "undigits (cs @ [c]) = 10 * undigits cs + digit_val c"
  by (simp add: undigits_def)

lemma undigits_digits10: "undigits (digits10 n) = n"
proof (induction n rule: digits10.induct)
  case (1 n)
  show ?case
  proof (cases "n < 10")
    case True
    then show ?thesis
      by (subst digits10.simps) (simp add: undigits_def digit_val_digit_char)
  next
    case False
    with "1" have "undigits (digits10 (n div 10)) = n div 10" by simp
    with False show ?thesis
      by (subst digits10.simps) (simp add: undigits_snoc digit_val_digit_char)
  qed
qed

lemma digits10_inj: "digits10 a = digits10 b \<Longrightarrow> a = b"
  by (metis undigits_digits10)

lemma digits10_chars: "c \<in> set (digits10 n) \<Longrightarrow> (48::nat) \<le> of_char c"
proof (induction n rule: digits10.induct)
  case (1 n)
  show ?case
  proof (cases "n < 10")
    case True
    with "1.prems" have "c = digit_char n"
      by (subst (asm) digits10.simps) simp
    with True show ?thesis by (simp add: of_char_digit_char)
  next
    case False
    with "1.prems" have "c \<in> set (digits10 (n div 10)) \<or> c = digit_char (n mod 10)"
      by (subst (asm) digits10.simps) auto
    with "1.IH" False show ?thesis
      by (auto simp: of_char_digit_char)
  qed
qed

lemma digits10_no_minus: "CHR ''-'' # cs \<noteq> digits10 n"
proof
  assume "CHR ''-'' # cs = digits10 n"
  then have "CHR ''-'' \<in> set (digits10 n)" by (metis list.set_intros(1))
  from digits10_chars [OF this] show False by simp
qed

lemma sprint_d_inj: "sprint_d a = sprint_d b \<Longrightarrow> a = b"
proof -
  assume e: "sprint_d a = sprint_d b"
  consider "a < 0" "b < 0" | "a < 0" "0 \<le> b" | "0 \<le> a" "b < 0" | "0 \<le> a" "0 \<le> b"
    by linarith
  then show ?thesis
  proof cases
    case 1
    with e have "digits10 (nat (- a)) = digits10 (nat (- b))" by (simp add: sprint_d_def)
    then have "nat (- a) = nat (- b)" by (rule digits10_inj)
    with 1 show ?thesis by simp
  next
    case 2
    with e show ?thesis using digits10_no_minus [of "digits10 (nat (- a))" "nat b"]
      by (simp add: sprint_d_def)
  next
    case 3
    with e show ?thesis using digits10_no_minus [of "digits10 (nat (- b))" "nat a"]
      by (simp add: sprint_d_def)
  next
    case 4
    with e have "digits10 (nat a) = digits10 (nat b)" by (simp add: sprint_d_def)
    then have "nat a = nat b" by (rule digits10_inj)
    with 4 show ?thesis by simp
  qed
qed

lemma digit_char_numerals:
  "digit_char 0 = CHR ''0''" "digit_char 1 = CHR ''1''" "digit_char 2 = CHR ''2''"
  "digit_char 3 = CHR ''3''" "digit_char 4 = CHR ''4''" "digit_char 5 = CHR ''5''"
  "digit_char 6 = CHR ''6''" "digit_char 7 = CHR ''7''" "digit_char 8 = CHR ''8''"
  "digit_char 9 = CHR ''9''" "digit_char (Suc 0) = CHR ''1''"
  by code_simp+

lemma warm_name_inj: "warm_name a = warm_name b \<Longrightarrow> a = b"
  by (simp add: warm_name_def sprint_d_inj)

lemma wrap64_id: "- (2 ^ 63) \<le> x \<Longrightarrow> x < 2 ^ 63 \<Longrightarrow> wrap64 x = x"
  by (simp add: wrap64_def)

section \<open>Replenish on a table with fresh names\<close>

text \<open>
  When the sizes are in range the first locked section computes the specification's
  number; when moreover the next name is new to the table, one iteration of the loop goes
  through the two states of the specification's iteration.
\<close>

lemma Replenish_needed_spec:
  assumes "sizes_in_range m"
  shows "Replenish_needed m = (if spec_needed m \<le> 0 then None else Some (spec_needed m))"
proof -
  let ?w = "int (length (filter (\<lambda>s. State s = SlotIdle) (slots m)))"
  let ?t = "int (length (slots m))"
  have wt: "0 \<le> ?w" "?w \<le> ?t" by simp_all
  from assms have r: "\<bar>WarmSize (cfg m)\<bar> < 2 ^ 62" "\<bar>MaxVMs (cfg m)\<bar> < 2 ^ 62" "?t < 2 ^ 62"
    by (simp_all add: sizes_in_range_def)
  have p: "(2::int) ^ 63 = 2 * 2 ^ 62" by simp
  have a: "wrap64 (WarmSize (cfg m) - ?w) = WarmSize (cfg m) - ?w"
    using r wt p by (intro wrap64_id) linarith+
  have b: "wrap64 (?t + (WarmSize (cfg m) - ?w)) = ?t + (WarmSize (cfg m) - ?w)"
    using r wt p by (intro wrap64_id) linarith+
  have c: "wrap64 (MaxVMs (cfg m) - ?t) = MaxVMs (cfg m) - ?t"
    using r wt p by (intro wrap64_id) linarith+
  show ?thesis
    unfolding Replenish_needed_def spec_needed_def idleCount_def totalSlots_def Let_def a b c
    by (simp add: min_def max_def)
qed

lemma first_index_snoc_fresh:
  "(\<forall>x\<in>set xs. \<not> P x) \<Longrightarrow> P y \<Longrightarrow> first_index P (xs @ [y]) = Some (length xs)"
  by (simp add: first_index_Some nth_append)

lemma Replenish_reserve_fresh:
  assumes "- (2 ^ 63) \<le> counter m + 1" "counter m + 1 < 2 ^ 63"
  shows "Replenish_reserve now m =
    (warm_name (counter m + 1),
     m\<lparr>counter := counter m + 1,
       slots := slots m @ [new_slot (warm_name (counter m + 1)) SlotCreating now]\<rparr>)"
  using assms by (simp add: Replenish_reserve_def Let_def wrap64_id new_slot_def)

lemma Replenish_settle_fresh:
  assumes "\<forall>s\<in>set ss. Name s \<noteq> name"
  shows "Replenish_settle err name (m\<lparr>counter := c, slots := ss @ [new_slot name SlotCreating now]\<rparr>) =
    (case err of
       None \<Rightarrow> m\<lparr>counter := c, slots := ss @ [new_slot name SlotIdle now]\<rparr>
     | Some e \<Rightarrow> m\<lparr>counter := c, slots := ss\<rparr>)"
proof -
  have "first_index (\<lambda>s. Name s = name) (ss @ [new_slot name SlotCreating now]) = Some (length ss)"
    using assms by (intro first_index_snoc_fresh) (simp_all add: new_slot_def)
  then show ?thesis
    by (cases err) (simp_all add: Replenish_settle_def new_slot_def)
qed

lemma Replenish_spec_Suc:
  "Replenish_spec env i (Suc n) m =
     inserted_state env i m # settled_state env i m # Replenish_spec env (i + 1) n (settled_state env i m)"
  by (simp only: Replenish_spec.simps inserted_state_def settled_state_def Let_def)

lemma names_fresh_next:
  assumes "names_fresh m"
  shows "\<forall>s\<in>set (slots m). Name s \<noteq> warm_name (counter m + 1)"
  using assms by (simp add: names_fresh_def)

lemma names_fresh_settled:
  assumes "names_fresh m"
  shows "names_fresh (settled_state env i m)"
proof -
  have new: "warm_name (counter m + 1) \<noteq> warm_name k" if "counter m + 1 < k" for k
    using that warm_name_inj [of "counter m + 1" k] by auto
  show ?thesis
    using assms new
    by (auto simp: names_fresh_def settled_state_def new_slot_def split: option.splits)
qed

lemma Replenish_loop_iteration:
  assumes "i < needed" "\<not> cancelled env i" "names_fresh m"
    "- (2 ^ 63) \<le> counter m + 1" "counter m + 1 < 2 ^ 63"
  shows "Replenish_loop env i needed m =
     inserted_state env i m # settled_state env i m #
       Replenish_loop env (i + 1) needed (settled_state env i m)"
proof -
  let ?name = "warm_name (counter m + 1)"
  have res: "Replenish_reserve (clock env i) m = (?name, inserted_state env i m)"
    using assms(4,5) by (simp add: Replenish_reserve_fresh inserted_state_def)
  have set: "Replenish_settle err ?name (inserted_state env i m) =
      (case err of
         None \<Rightarrow> m\<lparr>counter := counter m + 1, slots := slots m @ [new_slot ?name SlotIdle (clock env i)]\<rparr>
       | Some e \<Rightarrow> m\<lparr>counter := counter m + 1, slots := slots m\<rparr>)" for err
    unfolding inserted_state_def
    by (rule Replenish_settle_fresh [OF names_fresh_next [OF assms(3)]])
  have cfg: "cfg (inserted_state env i m) = cfg m" by (simp add: inserted_state_def)
  have "Replenish_settle
          (clone env i \<lparr>Source = MasterName (cfg m), Target = ?name, Start = True,
                         Timeout = 300000000000\<rparr>) ?name (inserted_state env i m) =
        settled_state env i m"
    by (simp add: set settled_state_def split: option.splits)
  with assms(1,2) res cfg show ?thesis
    by (subst Replenish_loop.simps) (simp add: Let_def)
qed

lemma counter_settled: "counter (settled_state env i m) = counter m + 1"
  by (simp add: settled_state_def split: option.splits)

lemma cfg_settled: "cfg (settled_state env i m) = cfg m"
  by (simp add: settled_state_def split: option.splits)

lemma Replenish_loop_spec:
  assumes "i \<le> needed" "\<forall>j. i \<le> j \<and> j < needed \<longrightarrow> \<not> cancelled env j" "names_fresh m"
    "- (2 ^ 63) \<le> counter m + 1" "counter m + (needed - i) < 2 ^ 63"
  shows "Replenish_loop env i needed m = Replenish_spec env i (nat (needed - i)) m"
  using assms
proof (induction env i needed m rule: Replenish_loop.induct)
  case (1 env i needed m)
  show ?case
  proof (cases "i < needed")
    case False
    with "1.prems" show ?thesis by (subst Replenish_loop.simps) simp
  next
    case True
    from True "1.prems" have nc: "\<not> cancelled env i" by simp
    from True "1.prems" have c1: "counter m + 1 < 2 ^ 63" by linarith
    have step: "Replenish_loop env i needed m =
        inserted_state env i m # settled_state env i m #
          Replenish_loop env (i + 1) needed (settled_state env i m)"
      by (rule Replenish_loop_iteration [OF True nc "1.prems"(3) "1.prems"(4) c1])
    have res: "Replenish_reserve (clock env i) m =
        (warm_name (counter m + 1), inserted_state env i m)"
      using "1.prems"(4) c1 by (simp add: Replenish_reserve_fresh inserted_state_def)
    have settle: "Replenish_settle
          (clone env i \<lparr>Source = MasterName (cfg (inserted_state env i m)),
                         Target = warm_name (counter m + 1), Start = True,
                         Timeout = 5 * 60 * 1000000000\<rparr>)
          (warm_name (counter m + 1)) (inserted_state env i m) =
        settled_state env i m"
      using step True nc res by (subst (asm) Replenish_loop.simps) (simp add: Let_def)
    have ih: "Replenish_loop env (i + 1) needed (settled_state env i m) =
        Replenish_spec env (i + 1) (nat (needed - (i + 1))) (settled_state env i m)"
    proof (rule "1.IH" [OF True nc res [symmetric] refl refl settle [symmetric]])
      show "i + 1 \<le> needed" using True by simp
      show "\<forall>j. i + 1 \<le> j \<and> j < needed \<longrightarrow> \<not> cancelled env j" using "1.prems"(2) by simp
      show "names_fresh (settled_state env i m)" by (rule names_fresh_settled [OF "1.prems"(3)])
      show "- (2 ^ 63) \<le> counter (settled_state env i m) + 1"
        using "1.prems"(4) by (simp add: counter_settled)
      show "counter (settled_state env i m) + (needed - (i + 1)) < 2 ^ 63"
        using "1.prems"(5) by (simp add: counter_settled)
    qed
    from True have n: "nat (needed - i) = Suc (nat (needed - (i + 1)))" by simp
    show ?thesis by (simp only: n Replenish_spec_Suc step ih)
  qed
qed

lemma Replenish_spec_length: "length (Replenish_spec env i n m) = 2 * n"
  by (induction n arbitrary: i m) (simp_all only: Replenish_spec.simps Let_def list.size, simp_all)

lemma slots_settled_le: "length (slots (settled_state env i m)) \<le> Suc (length (slots m))"
  by (simp add: settled_state_def split: option.splits)

lemma Replenish_spec_bound:
  "m' \<in> set (Replenish_spec env i n m) \<Longrightarrow>
   length (slots m') \<le> length (slots m) + n \<and> cfg m' = cfg m"
proof (induction n arbitrary: i m)
  case 0
  then show ?case by simp
next
  case (Suc n)
  from Suc.prems consider "m' = inserted_state env i m" | "m' = settled_state env i m"
    | "m' \<in> set (Replenish_spec env (i + 1) n (settled_state env i m))"
    by (auto simp only: Replenish_spec_Suc set_simps)
  then show ?case
  proof cases
    case 1
    then show ?thesis by (simp add: inserted_state_def)
  next
    case 2
    with slots_settled_le [of env i m] show ?thesis by (simp add: cfg_settled)
  next
    case 3
    from Suc.IH [OF 3] slots_settled_le [of env i m] show ?thesis by (simp add: cfg_settled)
  qed
qed

lemma Replenish_spec_counter:
  "counter (last (m # Replenish_spec env i n m)) = counter m + int n"
proof (induction n arbitrary: i m)
  case 0
  show ?case by simp
next
  case (Suc n)
  have "last (m # Replenish_spec env i (Suc n) m) =
      last (settled_state env i m # Replenish_spec env (i + 1) n (settled_state env i m))"
    by (simp only: Replenish_spec_Suc last.simps list.simps if_False)
  moreover have "counter (last (settled_state env i m # Replenish_spec env (i + 1) n (settled_state env i m))) =
      counter (settled_state env i m) + int n"
    by (rule Suc.IH)
  ultimately show ?case
    by (simp add: counter_settled)
qed

lemma upt_Suc_shift: "[0..<Suc n] = 0 # map Suc [0..<n]"
  by (simp add: upt_conv_Cons map_Suc_upt del: upt_Suc)

lemma Replenish_spec_final_slots:
  "slots (last (m # Replenish_spec env i n m)) =
     slots m @
     map (\<lambda>k. new_slot (warm_name (counter m + 1 + int k)) SlotIdle (clock env (i + int k)))
       (filter (\<lambda>k. clone env (i + int k)
                  \<lparr>Source = MasterName (cfg m), Target = warm_name (counter m + 1 + int k),
                    Start = True, Timeout = 300000000000\<rparr> = None)
          [0..<n])"
proof (induction n arbitrary: i m)
  case 0
  show ?case by simp
next
  case (Suc n)
  let ?s = "settled_state env i m"
  have l: "last (m # Replenish_spec env i (Suc n) m) = last (?s # Replenish_spec env (i + 1) n ?s)"
    by (simp only: Replenish_spec_Suc last.simps list.simps if_False)
  have add: "counter m + 1 + 1 + int k = counter m + 1 + int (Suc k)"
    "i + 1 + int k = i + int (Suc k)" for k
    by simp_all
  have ih: "slots (last (?s # Replenish_spec env (i + 1) n ?s)) =
     slots ?s @
     map (\<lambda>k. new_slot (warm_name (counter m + 1 + int (Suc k))) SlotIdle (clock env (i + int (Suc k))))
       (filter (\<lambda>k. clone env (i + int (Suc k))
                  \<lparr>Source = MasterName (cfg m), Target = warm_name (counter m + 1 + int (Suc k)),
                    Start = True, Timeout = 300000000000\<rparr> = None)
          [0..<n])"
    using Suc.IH [of ?s "i + 1"] by (simp only: counter_settled cfg_settled add)
  show ?case
    unfolding l ih upt_Suc_shift
    by (simp add: settled_state_def filter_map comp_def split: option.splits)
qed

section \<open>The pool invariant\<close>

lemma pool_invariant_inserted: "pool_invariant m \<Longrightarrow> pool_invariant (inserted_state env i m)"
  by (auto simp: pool_invariant_def inserted_state_def new_slot_def slot_states_distinct)

lemma pool_invariant_settled: "pool_invariant m \<Longrightarrow> pool_invariant (settled_state env i m)"
  by (auto simp: pool_invariant_def settled_state_def new_slot_def slot_states_distinct
      split: option.splits)

lemma names_fresh_inserted:
  assumes "names_fresh m"
  shows "names_fresh (inserted_state env i m)"
proof -
  have new: "warm_name (counter m + 1) \<noteq> warm_name k" if "counter m + 1 < k" for k
    using that warm_name_inj [of "counter m + 1" k] by auto
  show ?thesis
    using assms new by (auto simp: names_fresh_def inserted_state_def new_slot_def)
qed

lemma Replenish_loop_keeps:
  assumes "names_fresh m" "pool_invariant m"
    "- (2 ^ 63) \<le> counter m + 1" "counter m + (needed - i) < 2 ^ 63"
  shows "\<forall>m'\<in>set (Replenish_loop env i needed m). pool_invariant m' \<and> names_fresh m'"
  using assms
proof (induction env i needed m rule: Replenish_loop.induct)
  case (1 env i needed m)
  show ?case
  proof (cases "i < needed \<and> \<not> cancelled env i")
    case False
    then show ?thesis by (subst Replenish_loop.simps) auto
  next
    case True
    then have lt: "i < needed" and nc: "\<not> cancelled env i" by simp_all
    from lt "1.prems" have c1: "counter m + 1 < 2 ^ 63" by linarith
    have step: "Replenish_loop env i needed m =
        inserted_state env i m # settled_state env i m #
          Replenish_loop env (i + 1) needed (settled_state env i m)"
      by (rule Replenish_loop_iteration [OF lt nc "1.prems"(1) "1.prems"(3) c1])
    have res: "Replenish_reserve (clock env i) m =
        (warm_name (counter m + 1), inserted_state env i m)"
      using "1.prems"(3) c1 by (simp add: Replenish_reserve_fresh inserted_state_def)
    have settle: "Replenish_settle
          (clone env i \<lparr>Source = MasterName (cfg (inserted_state env i m)),
                         Target = warm_name (counter m + 1), Start = True,
                         Timeout = 5 * 60 * 1000000000\<rparr>)
          (warm_name (counter m + 1)) (inserted_state env i m) =
        settled_state env i m"
      using step lt nc res by (subst (asm) Replenish_loop.simps) (simp add: Let_def)
    have ih: "\<forall>m'\<in>set (Replenish_loop env (i + 1) needed (settled_state env i m)).
        pool_invariant m' \<and> names_fresh m'"
    proof (rule "1.IH" [OF lt nc res [symmetric] refl refl settle [symmetric]])
      show "names_fresh (settled_state env i m)" by (rule names_fresh_settled [OF "1.prems"(1)])
      show "pool_invariant (settled_state env i m)" by (rule pool_invariant_settled [OF "1.prems"(2)])
      show "- (2 ^ 63) \<le> counter (settled_state env i m) + 1"
        using "1.prems"(3) by (simp add: counter_settled)
      show "counter (settled_state env i m) + (needed - (i + 1)) < 2 ^ 63"
        using "1.prems"(4) by (simp add: counter_settled)
    qed
    with pool_invariant_inserted [OF "1.prems"(2)] pool_invariant_settled [OF "1.prems"(2)]
      names_fresh_inserted [OF "1.prems"(1)] names_fresh_settled [OF "1.prems"(1)]
    show ?thesis by (simp only: step) simp
  qed
qed

lemma spec_needed_le: "sizes_in_range m \<Longrightarrow> spec_needed m < 2 ^ 62"
  by (auto simp: spec_needed_def sizes_in_range_def idleCount_def max_def min_def)

lemma Replenish_trace_keeps:
  assumes "pool_invariant m" "names_fresh m" "sizes_in_range m"
  shows "\<forall>m'\<in>set (Replenish_trace env m). pool_invariant m' \<and> names_fresh m'"
proof (cases "spec_needed m \<le> 0")
  case True
  with assms show ?thesis by (simp add: Replenish_trace_def Replenish_needed_spec)
next
  case False
  have p: "(2::int) ^ 63 = 2 * 2 ^ 62" by simp
  from assms(3) have c: "\<bar>counter m\<bar> < 2 ^ 62" by (simp add: sizes_in_range_def)
  from False assms have "Replenish_trace env m = Replenish_loop env 0 (spec_needed m) m"
    by (simp add: Replenish_trace_def Replenish_needed_spec)
  moreover have "\<forall>m'\<in>set (Replenish_loop env 0 (spec_needed m) m). pool_invariant m' \<and> names_fresh m'"
    using c p spec_needed_le [OF assms(3)]
    by (intro Replenish_loop_keeps assms) linarith+
  ultimately show ?thesis by simp
qed

lemma set_take_drop: "set (take i xs @ drop (Suc i) xs) \<subseteq> set xs"
  using set_take_subset [of i xs] set_drop_subset [of "Suc i" xs] by auto

lemma pool_invariant_subset:
  "pool_invariant m \<Longrightarrow> set ss \<subseteq> set (slots m) \<Longrightarrow> pool_invariant (m\<lparr>slots := ss\<rparr>)"
  by (auto simp: pool_invariant_def)

lemma pool_invariant_remove:
  "pool_invariant m \<Longrightarrow> pool_invariant (m\<lparr>slots := take i (slots m) @ drop (Suc i) (slots m)\<rparr>)"
  by (rule pool_invariant_subset [OF _ set_take_drop])

lemma pool_invariant_Destroy: "pool_invariant m \<Longrightarrow> pool_invariant (snd (Destroy delete m name))"
  by (auto simp: Destroy_def Let_def pool_invariant_remove split: option.splits)

lemma pool_invariant_Drain_fold:
  "pool_invariant m \<Longrightarrow> pool_invariant (foldl (\<lambda>m' name. snd (Destroy delete m' name)) m names)"
  by (induction names arbitrary: m) (simp_all add: pool_invariant_Destroy)

lemma pool_invariant_update:
  assumes "pool_invariant m" "State s = SlotActive \<longleftrightarrow> AgentID s \<noteq> []"
  shows "pool_invariant (m\<lparr>slots := (slots m)[i := s]\<rparr>)"
proof -
  have "set ((slots m)[i := s]) \<subseteq> insert s (set (slots m))" by (rule set_update_subset_insert)
  with assms show ?thesis by (auto simp: pool_invariant_def)
qed

lemma pool_invariant_Claim:
  assumes "pool_invariant m" "agentID \<noteq> []"
  shows "pool_invariant (snd (Claim now getVMIP m agentID project))"
proof (cases "first_index (\<lambda>s. State s = SlotIdle) (slots m)")
  case None
  with assms show ?thesis by (simp add: Claim_def)
next
  case (Some i)
  show ?thesis
    using assms Some
    by (cases "getVMIP (Name (slots m ! i))")
       (simp_all add: Claim_def Let_def pool_invariant_update)
qed

lemma pool_invariant_Release: "pool_invariant m \<Longrightarrow> pool_invariant (snd (Release persist m name))"
  by (cases "first_index (\<lambda>s. Name s = name) (slots m)")
     (simp_all add: Release_def pool_invariant_update slot_states_distinct)

lemma pool_invariant_reconcile: "pool_invariant m \<Longrightarrow> pool_invariant (reconcile listed m)"
  by (cases listed) (simp_all add: reconcile_def Let_def pool_invariant_subset)

text \<open>The condition on names is kept by every operation as well.\<close>

lemma names_fresh_subset:
  "names_fresh m \<Longrightarrow> Name ` set ss \<subseteq> Name ` set (slots m) \<Longrightarrow> names_fresh (m\<lparr>slots := ss\<rparr>)"
  by (auto simp: names_fresh_def)

lemma names_update_same:
  assumes "i < length ss" "Name c = Name (ss ! i)"
  shows "Name ` set (ss[i := c]) \<subseteq> Name ` set ss"
proof -
  have "set (ss[i := c]) \<subseteq> insert c (set ss)" by (rule set_update_subset_insert)
  moreover have "Name c \<in> Name ` set ss" using assms by (metis imageI nth_mem)
  ultimately show ?thesis by auto
qed

lemma names_fresh_Claim: "names_fresh m \<Longrightarrow> names_fresh (snd (Claim now probe m agentID project))"
proof (cases "first_index (\<lambda>s. State s = SlotIdle) (slots m)")
  case None
  then show "names_fresh m \<Longrightarrow> ?thesis" by (simp add: Claim_def)
next
  case (Some i)
  assume f: "names_fresh m"
  from Some have i: "i < length (slots m)" by (simp add: first_index_Some)
  from Claim_at [OF Some, of now probe agentID project] obtain c where
    c: "Claim now probe m agentID project = (Inr c, m\<lparr>slots := (slots m)[i := c]\<rparr>)"
    and n: "Name c = Name (slots m ! i)" by blast
  from names_fresh_subset [OF f names_update_same [OF i n]] c show ?thesis by simp
qed

lemma names_fresh_Release: "names_fresh m \<Longrightarrow> names_fresh (snd (Release persist m name))"
proof (cases "first_index (\<lambda>s. Name s = name) (slots m)")
  case None
  then show "names_fresh m \<Longrightarrow> ?thesis" by (simp add: Release_def)
next
  case (Some i)
  assume f: "names_fresh m"
  from Some have i: "i < length (slots m)" by (simp add: first_index_Some)
  have "Name ((slots m ! i)\<lparr>State := SlotCold, AgentID := [], Project := []\<rparr>) = Name (slots m ! i)"
    by simp
  from names_fresh_subset [OF f names_update_same [OF i this]] Some show ?thesis
    by (simp add: Release_def)
qed

lemma names_fresh_remove:
  "names_fresh m \<Longrightarrow> names_fresh (m\<lparr>slots := take i (slots m) @ drop (Suc i) (slots m)\<rparr>)"
  by (rule names_fresh_subset [OF _ image_mono [OF set_take_drop]])

lemma names_fresh_Destroy: "names_fresh m \<Longrightarrow> names_fresh (snd (Destroy delete m name))"
  by (auto simp: Destroy_def Let_def names_fresh_remove split: option.splits)

lemma names_fresh_Drain_fold:
  "names_fresh m \<Longrightarrow> names_fresh (foldl (\<lambda>m' name. snd (Destroy delete m' name)) m names)"
  by (induction names arbitrary: m) (simp_all add: names_fresh_Destroy)

lemma names_fresh_reconcile: "names_fresh m \<Longrightarrow> names_fresh (reconcile listed m)"
  by (cases listed) (auto simp: reconcile_def Let_def intro!: names_fresh_subset)

section \<open>Replenish and a counter that is behind the table\<close>

text \<open>
  C3 and C5 are stated for every pool state. \<open>Replenish\<close> finds the slot it has just
  inserted by looking for the first slot with the new name, so it needs a table in which
  that name is new. In \<open>stale_pool\<close> the counter is behind the table: the only slot is
  \<open>warm-1\<close>, active for an agent, and the counter is 0 (the pool tests build such tables
  by appending \<open>warm-1\<close> to a new manager). The run inserts a second \<open>warm-1\<close>; the clone
  succeeds; the slot marked idle is the old one, which keeps its agent id, and the
  inserted slot stays in state creating.
\<close>

lemma Replenish_stale_pool:
  "Replenish_trace steady_env stale_pool =
     [stale_pool\<lparr>counter := 1,
        slots := [slot_lit ''warm-1'' SlotActive ''agent-1'', slot_lit ''warm-1'' SlotCreating []]\<rparr>,
      stale_pool\<lparr>counter := 1,
        slots := [slot_lit ''warm-1'' SlotIdle ''agent-1'', slot_lit ''warm-1'' SlotCreating []]\<rparr>]"
  by (simp add: Replenish_trace_def Replenish_needed_def wrap64_def Replenish_loop.simps
      Replenish_reserve_def Replenish_settle_def warm_name_def sprint_d_def digits10.simps
      digit_char_numerals Let_def stale_pool_def steady_env_def slot_lit_def zero_time_def
      slot_states_distinct)

theorem Replenish_invariant_counterexample:
  "pool_invariant stale_pool \<and> \<not> pool_invariant (Replenish steady_env stale_pool)"
  by (simp add: Replenish_def Replenish_stale_pool)
     (simp add: pool_invariant_def stale_pool_def slot_lit_def slot_states_distinct)

theorem Replenish_settles_other_slot_counterexample:
  "clone steady_env 0 \<lparr>Source = ''agent-master'', Target = ''warm-1'', Start = True,
                        Timeout = 300000000000\<rparr> = None \<and>
   Name (last (slots (Replenish steady_env stale_pool))) = ''warm-1'' \<and>
   State (last (slots (Replenish steady_env stale_pool))) = SlotCreating \<and>
   SlotCreating \<noteq> SlotIdle \<and>
   length (slots (Replenish steady_env stale_pool)) = 2"
  by (simp add: Replenish_def Replenish_stale_pool)
     (simp add: steady_env_def slot_lit_def slot_states_distinct)

text \<open>
  C3, as the code has it. For every manager whose sizes are in range and whose table has no
  name the counter has yet to issue, a run of \<open>Replenish\<close> that is not cancelled goes
  through exactly the states of the specification's run: with
  \<open>n = max(0, min(warmSize - idleCount, maxVMs - totalSlots))\<close> it inserts \<open>n\<close> slots in
  state creating, one per iteration and each named after the next counter value, and each
  inserted slot becomes idle when its clone succeeded and is removed when its clone
  failed. The run has \<open>2n\<close> locked sections in its loop and advances the counter by
  \<open>n\<close>; the table it leaves is the table before followed by one idle slot for every
  clone that succeeded, in order. When the table is full or enough slots are idle it
  inserts nothing and changes nothing; and when the table held at most \<open>maxVMs\<close> slots
  before, it does so in every state of the run.
\<close>

theorem Replenish_inserts_needed:
  assumes "sizes_in_range m" "names_fresh m"
    "\<forall>i. 0 \<le> i \<and> i < spec_needed m \<longrightarrow> \<not> cancelled env i"
  shows "Replenish_trace env m = Replenish_spec env 0 (nat (spec_needed m)) m \<and>
    length (Replenish_trace env m) = 2 * nat (spec_needed m) \<and>
    counter (Replenish env m) = counter m + spec_needed m \<and>
    slots (Replenish env m) =
      slots m @
      map (\<lambda>k. new_slot (warm_name (counter m + 1 + int k)) SlotIdle (clock env (int k)))
        (filter (\<lambda>k. clone env (int k)
                   \<lparr>Source = MasterName (cfg m), Target = warm_name (counter m + 1 + int k),
                     Start = True, Timeout = 300000000000\<rparr> = None)
           [0..<nat (spec_needed m)]) \<and>
    (totalSlots m = MaxVMs (cfg m) \<or> WarmSize (cfg m) \<le> idleCount m \<longrightarrow>
       Replenish_trace env m = [] \<and> Replenish env m = m) \<and>
    (totalSlots m \<le> MaxVMs (cfg m) \<longrightarrow>
       (\<forall>m'\<in>set (Replenish_trace env m). totalSlots m' \<le> MaxVMs (cfg m')))"
proof -
  have p: "(2::int) ^ 63 = 2 * 2 ^ 62" by simp
  from assms(1) have c: "\<bar>counter m\<bar> < 2 ^ 62" by (simp add: sizes_in_range_def)
  have nn: "0 \<le> spec_needed m" by (simp add: spec_needed_def)
  have trace: "Replenish_trace env m = Replenish_spec env 0 (nat (spec_needed m)) m"
  proof (cases "spec_needed m \<le> 0")
    case True
    with assms(1) show ?thesis by (simp add: Replenish_trace_def Replenish_needed_spec)
  next
    case False
    have "Replenish_loop env 0 (spec_needed m) m =
        Replenish_spec env 0 (nat (spec_needed m - 0)) m"
      using False assms(3) c p spec_needed_le [OF assms(1)]
      by (intro Replenish_loop_spec assms(2)) (simp, simp, linarith, linarith)
    with False assms(1) show ?thesis
      by (simp add: Replenish_trace_def Replenish_needed_spec)
  qed
  have len: "length (Replenish_trace env m) = 2 * nat (spec_needed m)"
    by (simp add: trace Replenish_spec_length)
  have "counter (Replenish env m) = counter m + int (nat (spec_needed m))"
    unfolding Replenish_def trace by (rule Replenish_spec_counter)
  with nn have cnt: "counter (Replenish env m) = counter m + spec_needed m"
    by simp
  have none: "Replenish_trace env m = [] \<and> Replenish env m = m"
    if "totalSlots m = MaxVMs (cfg m) \<or> WarmSize (cfg m) \<le> idleCount m"
  proof -
    from that have "spec_needed m = 0" by (auto simp: spec_needed_def)
    then show ?thesis by (simp add: Replenish_def trace)
  qed
  have bound: "totalSlots m' \<le> MaxVMs (cfg m')"
    if le: "totalSlots m \<le> MaxVMs (cfg m)" and mem: "m' \<in> set (Replenish_trace env m)" for m'
  proof -
    from mem have b: "length (slots m') \<le> length (slots m) + nat (spec_needed m)" "cfg m' = cfg m"
      using Replenish_spec_bound [of m' env 0 "nat (spec_needed m)" m] by (simp_all add: trace)
    have "totalSlots m + spec_needed m \<le> MaxVMs (cfg m)"
      using le by (auto simp: spec_needed_def totalSlots_def max_def min_def)
    with b nn show ?thesis by (simp add: totalSlots_def)
  qed
  have fin: "slots (Replenish env m) =
      slots m @
      map (\<lambda>k. new_slot (warm_name (counter m + 1 + int k)) SlotIdle (clock env (int k)))
        (filter (\<lambda>k. clone env (int k)
                   \<lparr>Source = MasterName (cfg m), Target = warm_name (counter m + 1 + int k),
                     Start = True, Timeout = 300000000000\<rparr> = None)
           [0..<nat (spec_needed m)])"
    using Replenish_spec_final_slots [of m env 0 "nat (spec_needed m)"]
    by (simp only: Replenish_def trace add_0)
  from trace len cnt fin none bound show ?thesis by blast
qed

text \<open>
  C5, as the code has it. A manager in which a slot is active exactly when its agent id is
  not empty is again such a manager after \<open>Claim\<close> with an agent id that is not empty,
  after \<open>Release\<close>, \<open>Destroy\<close>, \<open>Drain\<close> and \<open>reconcile\<close>; and after \<open>Replenish\<close>, and
  in every state of its run, cancelled or not, when the sizes are in range and the table
  has no name the counter has yet to issue. That condition on the names is kept by all six
  operations in turn, so it holds of every table the operations build from an empty one.
\<close>

theorem pool_invariant_preserved:
  assumes "pool_invariant m"
  shows "(agentID \<noteq> [] \<longrightarrow> pool_invariant (snd (Claim now getVMIP m agentID project))) \<and>
    pool_invariant (snd (Release persist m name)) \<and>
    pool_invariant (snd (Destroy delete m name)) \<and>
    pool_invariant (Drain delete m) \<and>
    pool_invariant (reconcile listed m) \<and>
    (names_fresh m \<and> sizes_in_range m \<longrightarrow>
       pool_invariant (Replenish env m) \<and>
       (\<forall>m'\<in>set (Replenish_trace env m). pool_invariant m')) \<and>
    (names_fresh m \<longrightarrow>
       names_fresh (snd (Claim now getVMIP m agentID project)) \<and>
       names_fresh (snd (Release persist m name)) \<and>
       names_fresh (snd (Destroy delete m name)) \<and>
       names_fresh (Drain delete m) \<and>
       names_fresh (reconcile listed m) \<and>
       (sizes_in_range m \<longrightarrow> names_fresh (Replenish env m)))"
proof (intro conjI impI)
  assume "agentID \<noteq> []"
  with assms show "pool_invariant (snd (Claim now getVMIP m agentID project))"
    by (rule pool_invariant_Claim)
next
  show "pool_invariant (snd (Release persist m name))"
    by (rule pool_invariant_Release [OF assms])
next
  show "pool_invariant (snd (Destroy delete m name))"
    by (rule pool_invariant_Destroy [OF assms])
next
  show "pool_invariant (Drain delete m)"
    by (simp add: Drain_def Let_def pool_invariant_Drain_fold [OF assms])
next
  show "pool_invariant (reconcile listed m)"
    by (rule pool_invariant_reconcile [OF assms])
next
  assume h: "names_fresh m \<and> sizes_in_range m"
  then have all: "\<forall>m'\<in>set (Replenish_trace env m). pool_invariant m'"
    using Replenish_trace_keeps [OF assms] by simp
  have "Replenish env m \<in> set (m # Replenish_trace env m)"
    unfolding Replenish_def by (rule last_in_set) simp
  with all assms show "pool_invariant (Replenish env m)" by auto
  from all show "\<forall>m'\<in>set (Replenish_trace env m). pool_invariant m'" .
next
  assume f: "names_fresh m"
  show "names_fresh (snd (Claim now getVMIP m agentID project))"
    by (rule names_fresh_Claim [OF f])
  show "names_fresh (snd (Release persist m name))"
    by (rule names_fresh_Release [OF f])
  show "names_fresh (snd (Destroy delete m name))"
    by (rule names_fresh_Destroy [OF f])
  show "names_fresh (Drain delete m)"
    by (simp add: Drain_def Let_def names_fresh_Drain_fold [OF f])
  show "names_fresh (reconcile listed m)"
    by (rule names_fresh_reconcile [OF f])
  assume r: "sizes_in_range m"
  have all: "\<forall>m'\<in>set (Replenish_trace env m). names_fresh m'"
    using Replenish_trace_keeps [OF assms f r] by simp
  have "Replenish env m \<in> set (m # Replenish_trace env m)"
    unfolding Replenish_def by (rule last_in_set) simp
  with all f show "names_fresh (Replenish env m)" by auto
qed

lemma warm_name_numerals:
  "warm_name 1 = ''warm-1''" "warm_name 2 = ''warm-2''" "warm_name 3 = ''warm-3''"
  by (simp_all add: warm_name_def sprint_d_def digits10.simps digit_char_numerals)

lemma warm_pool_ok: "sizes_in_range warm_pool" "names_fresh warm_pool" "pool_invariant warm_pool"
proof -
  show "sizes_in_range warm_pool" by (simp add: sizes_in_range_def warm_pool_def)
  have "''warm-1'' \<noteq> warm_name k" if "1 < k" for k
    using that warm_name_inj [of 1 k] by (auto simp: warm_name_numerals)
  then show "names_fresh warm_pool" by (simp add: names_fresh_def warm_pool_def slot_lit_def)
  show "pool_invariant warm_pool"
    by (simp add: pool_invariant_def warm_pool_def slot_lit_def slot_states_distinct)
qed

lemma spec_needed_warm_pool: "spec_needed warm_pool = 2"
  by (simp add: spec_needed_def idleCount_def totalSlots_def warm_pool_def slot_lit_def
      slot_states_distinct)

theorem Replenish_inserts_needed_witness:
  "Replenish_trace flaky_env warm_pool =
     [warm_pool\<lparr>counter := 2,
        slots := [slot_lit ''warm-1'' SlotCold [], slot_lit ''warm-2'' SlotCreating []]\<rparr>,
      warm_pool\<lparr>counter := 2,
        slots := [slot_lit ''warm-1'' SlotCold [], slot_lit ''warm-2'' SlotIdle []]\<rparr>,
      warm_pool\<lparr>counter := 3,
        slots := [slot_lit ''warm-1'' SlotCold [], slot_lit ''warm-2'' SlotIdle [],
                  slot_lit ''warm-3'' SlotCreating []]\<rparr>,
      warm_pool\<lparr>counter := 3,
        slots := [slot_lit ''warm-1'' SlotCold [], slot_lit ''warm-2'' SlotIdle []]\<rparr>] \<and>
   counter (Replenish flaky_env warm_pool) = 3"
proof -
  have nc: "\<forall>i. 0 \<le> i \<and> i < spec_needed warm_pool \<longrightarrow> \<not> cancelled flaky_env i"
    by (simp add: flaky_env_def)
  note th = Replenish_inserts_needed [OF warm_pool_ok(1) warm_pool_ok(2) nc]
  note tr = th [THEN conjunct1]
  note cn = th [THEN conjunct2, THEN conjunct2, THEN conjunct1]
  have "Replenish_spec flaky_env 0 (Suc (Suc 0)) warm_pool =
     [warm_pool\<lparr>counter := 2,
        slots := [slot_lit ''warm-1'' SlotCold [], slot_lit ''warm-2'' SlotCreating []]\<rparr>,
      warm_pool\<lparr>counter := 2,
        slots := [slot_lit ''warm-1'' SlotCold [], slot_lit ''warm-2'' SlotIdle []]\<rparr>,
      warm_pool\<lparr>counter := 3,
        slots := [slot_lit ''warm-1'' SlotCold [], slot_lit ''warm-2'' SlotIdle [],
                  slot_lit ''warm-3'' SlotCreating []]\<rparr>,
      warm_pool\<lparr>counter := 3,
        slots := [slot_lit ''warm-1'' SlotCold [], slot_lit ''warm-2'' SlotIdle []]\<rparr>]"
    by (simp add: Let_def warm_name_numerals new_slot_def slot_lit_def zero_time_def
        warm_pool_def flaky_env_def)
  with tr cn show ?thesis
    by (simp add: spec_needed_warm_pool numeral_2_eq_2) (simp add: warm_pool_def)
qed

theorem pool_invariant_preserved_witness:
  "pool_invariant (snd (Claim 5 (\<lambda>name. Inl IOError) warm_pool ''agent-1'' ''p'')) \<and>
   pool_invariant (snd (Release None warm_pool ''warm-1'')) \<and>
   pool_invariant (snd (Destroy (\<lambda>name. None) warm_pool ''warm-1'')) \<and>
   pool_invariant (Drain (\<lambda>name. None) warm_pool) \<and>
   pool_invariant (reconcile (Inr []) warm_pool) \<and>
   pool_invariant (Replenish flaky_env warm_pool)"
proof -
  have a: "''agent-1'' \<noteq> []" by simp
  have f: "names_fresh warm_pool \<and> sizes_in_range warm_pool" by (simp add: warm_pool_ok)
  note th = pool_invariant_preserved [OF warm_pool_ok(3), of "''agent-1''" 5 "\<lambda>name. Inl IOError" "''p''"
      None "''warm-1''" "\<lambda>name. None" "Inr []" flaky_env]
  note c1 = th [THEN conjunct1, THEN mp, OF a]
  note c2 = th [THEN conjunct2, THEN conjunct1]
  note c3 = th [THEN conjunct2, THEN conjunct2, THEN conjunct1]
  note c4 = th [THEN conjunct2, THEN conjunct2, THEN conjunct2, THEN conjunct1]
  note c5 = th [THEN conjunct2, THEN conjunct2, THEN conjunct2, THEN conjunct2, THEN conjunct1]
  note c6 = th [THEN conjunct2, THEN conjunct2, THEN conjunct2, THEN conjunct2, THEN conjunct2,
      THEN conjunct1, THEN mp, OF f, THEN conjunct1]
  from c1 c2 c3 c4 c5 c6 show ?thesis by (intro conjI)
qed

section \<open>A failed dispatch releases the slot it claimed\<close>





lemma test_agentID: "Dispatch_agentID failing_shell_env = ''agent-12345''"
  by (simp add: Dispatch_agentID_def failing_shell_env_def go_rem_def sprint_d_def digits10.simps
      digit_char_numerals)


subsection \<open>Every idle slot is the first of its name\<close>


















subsection \<open>The rollback\<close>







section \<open>Register then Deregister\<close>

lemma try_send_room:
  "length (buf ch) < cap ch \<Longrightarrow> try_send ev ch = ch\<lparr>buf := buf ch @ [ev]\<rparr>"
  by (simp add: try_send_def)

lemma try_send_full: "cap ch \<le> length (buf ch) \<Longrightarrow> try_send ev ch = ch"
  by (simp add: try_send_def)

lemma subscribers_notify: "subscribers (notify ev s) = map (try_send ev) (subscribers s)"
  by (simp add: notify_def)

lemma agents_notify: "agents (notify ev s) = agents s"
  by (simp add: notify_def)

text \<open>
  C6. For every registration \<open>a\<close> and every store: after \<open>Register a\<close> and then
  \<open>Deregister\<close> of its agent id the store has no entry for that id, the list of
  subscribers is as long as before, and every subscriber whose queue had room for two
  more events holds, after what it held before, exactly two new events: the registered
  event and then the deregistered event for that id, both carrying \<open>a\<close>. Delivery is a
  total function of the store, so the operation that delivers always returns; an event
  offered to a queue that is full leaves that queue as it was.
\<close>

theorem Register_Deregister_events:
  "agents (Deregister (AgentID_r a) (Register a s)) (AgentID_r a) = None \<and>
   length (subscribers (Deregister (AgentID_r a) (Register a s))) = length (subscribers s) \<and>
   (\<forall>k<length (subscribers s).
      length (buf (subscribers s ! k)) + 2 \<le> cap (subscribers s ! k) \<longrightarrow>
      subscribers (Deregister (AgentID_r a) (Register a s)) ! k =
        (subscribers s ! k)\<lparr>buf := buf (subscribers s ! k) @
          [\<lparr>Type_e = EventAgentRegistered, AgentID_e = AgentID_r a, Agent_e = Some a\<rparr>,
           \<lparr>Type_e = EventAgentDeregistered, AgentID_e = AgentID_r a, Agent_e = Some a\<rparr>]\<rparr>) \<and>
   (\<forall>ev. \<forall>k<length (subscribers s).
      cap (subscribers s ! k) \<le> length (buf (subscribers s ! k)) \<longrightarrow>
      subscribers (notify ev s) ! k = subscribers s ! k)"
proof (intro conjI allI impI)
  show "agents (Deregister (AgentID_r a) (Register a s)) (AgentID_r a) = None"
    by (simp add: Deregister_def Register_def Let_def agents_notify)
next
  show "length (subscribers (Deregister (AgentID_r a) (Register a s))) = length (subscribers s)"
    by (simp add: Deregister_def Register_def Let_def subscribers_notify)
next
  fix k
  assume k: "k < length (subscribers s)"
    and room: "length (buf (subscribers s ! k)) + 2 \<le> cap (subscribers s ! k)"
  let ?ch = "subscribers s ! k"
  let ?e1 = "\<lparr>Type_e = EventAgentRegistered, AgentID_e = AgentID_r a, Agent_e = Some a\<rparr>"
  let ?e2 = "\<lparr>Type_e = EventAgentDeregistered, AgentID_e = AgentID_r a, Agent_e = Some a\<rparr>"
  have s1: "subscribers (Register a s) ! k = ?ch\<lparr>buf := buf ?ch @ [?e1]\<rparr>"
    using k room by (simp add: Register_def subscribers_notify try_send_room)
  have ag: "agents (Register a s) (AgentID_r a) = Some a"
    by (simp add: Register_def agents_notify)
  have len: "length (subscribers (Register a s)) = length (subscribers s)"
    by (simp add: Register_def subscribers_notify)
  have "subscribers (Deregister (AgentID_r a) (Register a s)) ! k =
      try_send ?e2 (subscribers (Register a s) ! k)"
    using k len ag by (simp add: Deregister_def Let_def subscribers_notify)
  also have "\<dots> = ?ch\<lparr>buf := buf ?ch @ [?e1, ?e2]\<rparr>"
    using room by (simp add: s1 try_send_def)
  finally show "subscribers (Deregister (AgentID_r a) (Register a s)) ! k =
      ?ch\<lparr>buf := buf ?ch @ [?e1, ?e2]\<rparr>" .
next
  fix ev k
  assume "k < length (subscribers s)" "cap (subscribers s ! k) \<le> length (buf (subscribers s ! k))"
  then show "subscribers (notify ev s) ! k = subscribers s ! k"
    by (simp add: subscribers_notify try_send_full)
qed

theorem Register_Deregister_events_witness:
  "subscribers (Deregister ''agent-1'' (Register (reg_lit ''agent-1'' ''registered'') test_store)) ! 0 =
     \<lparr>buf = [\<lparr>Type_e = EventAgentRegistered, AgentID_e = ''agent-1'',
               Agent_e = Some (reg_lit ''agent-1'' ''registered'')\<rparr>,
             \<lparr>Type_e = EventAgentDeregistered, AgentID_e = ''agent-1'',
               Agent_e = Some (reg_lit ''agent-1'' ''registered'')\<rparr>],
      cap = 64\<rparr> \<and>
   subscribers (notify \<lparr>Type_e = EventAgentRegistered, AgentID_e = ''agent-1'',
               Agent_e = Some (reg_lit ''agent-1'' ''registered'')\<rparr> test_store) ! 1 =
     subscribers test_store ! 1"
proof -
  let ?a = "reg_lit ''agent-1'' ''registered''"
  have id: "AgentID_r ?a = ''agent-1''" by (simp add: reg_lit_def)
  have h0: "0 < length (subscribers test_store)" by (simp add: test_store_def)
  have r0: "length (buf (subscribers test_store ! 0)) + 2 \<le> cap (subscribers test_store ! 0)"
    by (simp add: test_store_def)
  have h1: "1 < length (subscribers test_store)" by (simp add: test_store_def)
  have f1: "cap (subscribers test_store ! 1) \<le> length (buf (subscribers test_store ! 1))"
    by (simp add: test_store_def)
  note th = Register_Deregister_events [of ?a test_store]
  note a = th [THEN conjunct2, THEN conjunct2, THEN conjunct1, rule_format, OF h0 r0]
  note b = th [THEN conjunct2, THEN conjunct2, THEN conjunct2, rule_format, OF h1 f1]
  from a b show ?thesis by (simp add: id test_store_def)
qed

section \<open>The status endpoint stores the state only\<close>

text \<open>
  C7 says that the handler passes the state, the message and the branch of the request on
  to the store, so that a message or a branch that is not empty shows in the stored
  registration. The handler in \<open>internal/registry/server.go\<close> decodes the agent id, the
  state and the message, and calls \<open>UpdateState\<close> with the agent id and the state: it is
  written against the store of \<open>internal/registry/store.go\<close>, whose \<open>UpdateState\<close> takes
  these two and changes the state of the registration. The message is logged; a branch is
  not read. So for a registered agent a request with a message and a branch is answered
  200, the stored registration has the new state and still no message and no branch, and
  the store is the one the same request without message and branch leaves.
\<close>

theorem handleStatus_message_counterexample:
  "fst (handleStatus (Inr \<lparr>agentID_b = ''agent-1'', state_b = ''executing'',
                          message_b = ''Running claude-code'', branch_b = ''agent/p/agent-1''\<rparr>)
         (Register (reg_lit ''agent-1'' ''registered'') test_store)) = (StatusOK, OkResponse) \<and>
   map_option Message_r
     (agents (snd (handleStatus (Inr \<lparr>agentID_b = ''agent-1'', state_b = ''executing'',
                          message_b = ''Running claude-code'', branch_b = ''agent/p/agent-1''\<rparr>)
         (Register (reg_lit ''agent-1'' ''registered'') test_store))) ''agent-1'') = Some [] \<and>
   map_option Branch_r
     (agents (snd (handleStatus (Inr \<lparr>agentID_b = ''agent-1'', state_b = ''executing'',
                          message_b = ''Running claude-code'', branch_b = ''agent/p/agent-1''\<rparr>)
         (Register (reg_lit ''agent-1'' ''registered'') test_store))) ''agent-1'') = Some [] \<and>
   handleStatus (Inr \<lparr>agentID_b = ''agent-1'', state_b = ''executing'',
                      message_b = ''Running claude-code'', branch_b = ''agent/p/agent-1''\<rparr>)
     (Register (reg_lit ''agent-1'' ''registered'') test_store) =
   handleStatus (Inr \<lparr>agentID_b = ''agent-1'', state_b = ''executing'',
                      message_b = [], branch_b = []\<rparr>)
     (Register (reg_lit ''agent-1'' ''registered'') test_store)"
  by (simp add: handleStatus_def UpdateState_2_def Register_def notify_def reg_lit_def)

text \<open>
  C7, as the handler has it. For every decoded request body and every store: the answer is
  404 exactly when the agent id of the body is not registered, and then the store is
  unchanged; otherwise the answer is 200 and the store differs from the one before in the
  state of that registration, which is the state of the body, and in nothing else. The
  message and the branch of the body have no part in the result.
\<close>

theorem handleStatus_sets_state_only:
  "(fst (fst (handleStatus (Inr b) s)) = StatusNotFound \<longleftrightarrow> agents s (agentID_b b) = None) \<and>
   (agents s (agentID_b b) = None \<longrightarrow>
      handleStatus (Inr b) s =
        ((StatusNotFound, ErrorResponse (NotRegistered (agentID_b b))), s)) \<and>
   (\<forall>reg. agents s (agentID_b b) = Some reg \<longrightarrow>
      handleStatus (Inr b) s =
        ((StatusOK, OkResponse), s\<lparr>agents := (agents s)(agentID_b b \<mapsto> reg\<lparr>State_r := state_b b\<rparr>)\<rparr>)) \<and>
   handleStatus (Inr (b\<lparr>message_b := msg, branch_b := br\<rparr>)) s = handleStatus (Inr b) s"
proof -
  have "handleStatus (Inr (b\<lparr>message_b := msg, branch_b := br\<rparr>)) s = handleStatus (Inr b) s"
    by (simp add: handleStatus_def)
  moreover have
   "(fst (fst (handleStatus (Inr b) s)) = StatusNotFound \<longleftrightarrow> agents s (agentID_b b) = None) \<and>
    (agents s (agentID_b b) = None \<longrightarrow>
      handleStatus (Inr b) s =
        ((StatusNotFound, ErrorResponse (NotRegistered (agentID_b b))), s)) \<and>
    (\<forall>reg. agents s (agentID_b b) = Some reg \<longrightarrow>
      handleStatus (Inr b) s =
        ((StatusOK, OkResponse), s\<lparr>agents := (agents s)(agentID_b b \<mapsto> reg\<lparr>State_r := state_b b\<rparr>)\<rparr>))"
    by (cases "agents s (agentID_b b)")
       (simp_all add: handleStatus_def UpdateState_2_def StatusNotFound_def StatusOK_def)
  ultimately show ?thesis by simp
qed

theorem handleStatus_sets_state_only_witness:
  "handleStatus (Inr \<lparr>agentID_b = ''agent-2'', state_b = ''executing'',
                      message_b = ''Running claude-code'', branch_b = []\<rparr>)
     (Register (reg_lit ''agent-1'' ''registered'') test_store) =
     ((StatusNotFound, ErrorResponse (NotRegistered ''agent-2'')),
      Register (reg_lit ''agent-1'' ''registered'') test_store) \<and>
   handleStatus (Inr \<lparr>agentID_b = ''agent-1'', state_b = ''completed'',
                      message_b = ''done'', branch_b = ''agent/p/agent-1''\<rparr>)
     (Register (reg_lit ''agent-1'' ''registered'') test_store) =
     ((StatusOK, OkResponse),
      (Register (reg_lit ''agent-1'' ''registered'') test_store)
        \<lparr>agents := (agents (Register (reg_lit ''agent-1'' ''registered'') test_store))
           (''agent-1'' \<mapsto> reg_lit ''agent-1'' ''completed'')\<rparr>)"
proof -
  let ?b1 = "\<lparr>agentID_b = ''agent-2'', state_b = ''executing'',
              message_b = ''Running claude-code'', branch_b = []\<rparr>"
  let ?b2 = "\<lparr>agentID_b = ''agent-1'', state_b = ''completed'',
              message_b = ''done'', branch_b = ''agent/p/agent-1''\<rparr>"
  let ?s = "Register (reg_lit ''agent-1'' ''registered'') test_store"
  have h1: "agents ?s (agentID_b ?b1) = None"
    by (simp add: Register_def notify_def reg_lit_def test_store_def)
  have h2: "agents ?s (agentID_b ?b2) = Some (reg_lit ''agent-1'' ''registered'')"
    by (simp add: Register_def notify_def reg_lit_def)
  note n = handleStatus_sets_state_only [of ?b1 ?s, THEN conjunct2, THEN conjunct1, THEN mp, OF h1]
  note k = handleStatus_sets_state_only [of ?b2 ?s, THEN conjunct2, THEN conjunct2, THEN conjunct1,
      rule_format, OF h2]
  from n k show ?thesis by (simp add: reg_lit_def)
qed

text \<open>
  The store of a later revision has an \<open>UpdateState\<close> with four arguments, which stores a
  message and a branch that are not empty; no handler under the sources calls it.
\<close>

lemma UpdateState_stores_message_and_branch:
  assumes "agents s agentID = Some reg" "message \<noteq> []" "branch \<noteq> []"
  shows "fst (UpdateState now agentID state message branch s) = None \<and>
    agents (snd (UpdateState now agentID state message branch s)) agentID =
      Some (reg\<lparr>State_r := state, LastHeartbeat_r := now, Message_r := message, Branch_r := branch\<rparr>)"
  using assms by (simp add: UpdateState_def Let_def agents_notify)

section \<open>One stream for each agent\<close>

lemma log_streams_ok_New: "log_streams_ok NewLogStreamManager"
  by (simp add: log_streams_ok_def NewLogStreamManager_def)

lemma ctx_inj:
  assumes "distinct (map ctx_p ps)" "p \<in> set ps" "q \<in> set ps" "ctx_p p = ctx_p q"
  shows "p = q"
  using assms by (meson distinct_map inj_onD)

lemma log_streams_okI:
  assumes "distinct (map fst (streams m))"
    and "\<forall>a st. map_of (streams m) a = Some st \<longrightarrow>
        clients_s st \<noteq> [] \<and> agentID_s st = a \<and> cancel_s st \<notin> cancelled_ctxs m \<and>
        (\<exists>p\<in>set (started m). ctx_p p = cancel_s st \<and> agentID_p p = a)"
    and "\<forall>p\<in>set (started m). ctx_p p < next_ctx m"
    and "\<forall>c\<in>cancelled_ctxs m. c < next_ctx m"
    and "distinct (map ctx_p (started m))"
    and "\<forall>p\<in>set (started m). ctx_p p \<notin> cancelled_ctxs m \<longrightarrow>
        (\<exists>st. map_of (streams m) (agentID_p p) = Some st \<and> cancel_s st = ctx_p p)"
  shows "log_streams_ok m"
  unfolding log_streams_ok_def using assms by blast

lemma log_streams_ok_remove_client:
  assumes ok: "log_streams_ok m" and st: "map_of (streams m) a = Some st"
  shows "log_streams_ok (remove_client a st c m)"
proof (cases "removeAll c (clients_s st) = []")
  case True
  define m' where "m' = m\<lparr>streams := AList.delete a (streams m),
    cancelled_ctxs := insert (cancel_s st) (cancelled_ctxs m)\<rparr>"
  have eq: "remove_client a st c m = m'"
    using True by (simp add: remove_client_def m'_def)
  have sel: "streams m' = AList.delete a (streams m)" "cancelled_ctxs m' = insert (cancel_s st) (cancelled_ctxs m)"
    "started m' = started m" "next_ctx m' = next_ctx m"
    by (simp_all add: m'_def)
  from ok st obtain p where p: "p \<in> set (started m)" "ctx_p p = cancel_s st" "agentID_p p = a"
    unfolding log_streams_ok_def by blast
  have dist: "distinct (map ctx_p (started m))" using ok by (simp add: log_streams_ok_def)
  have other: "cancel_s st' \<noteq> cancel_s st" if "map_of (streams m) a' = Some st'" "a' \<noteq> a" for a' st'
  proof
    assume e: "cancel_s st' = cancel_s st"
    from ok that obtain q where q: "q \<in> set (started m)" "ctx_p q = cancel_s st'" "agentID_p q = a'"
      unfolding log_streams_ok_def by blast
    from ctx_inj [OF dist p(1) q(1)] e p q have "p = q" by simp
    with p q that show False by simp
  qed
  have "log_streams_ok m'"
  proof (rule log_streams_okI)
    show "distinct (map fst (streams m'))"
      using ok by (simp add: sel log_streams_ok_def distinct_delete)
  next
    show "\<forall>a' st'. map_of (streams m') a' = Some st' \<longrightarrow>
        clients_s st' \<noteq> [] \<and> agentID_s st' = a' \<and> cancel_s st' \<notin> cancelled_ctxs m' \<and>
        (\<exists>p\<in>set (started m'). ctx_p p = cancel_s st' \<and> agentID_p p = a')"
    proof (intro allI impI)
      fix a' st'
      assume "map_of (streams m') a' = Some st'"
      then have m': "map_of (streams m) a' = Some st'" and ne: "a' \<noteq> a"
        by (auto simp: sel delete_conv' split: if_splits)
      with ok other [OF m' ne]
      show "clients_s st' \<noteq> [] \<and> agentID_s st' = a' \<and> cancel_s st' \<notin> cancelled_ctxs m' \<and>
        (\<exists>p\<in>set (started m'). ctx_p p = cancel_s st' \<and> agentID_p p = a')"
        by (simp add: sel log_streams_ok_def)
    qed
  next
    show "\<forall>p\<in>set (started m'). ctx_p p < next_ctx m'"
      using ok by (simp add: sel log_streams_ok_def)
  next
    show "\<forall>c\<in>cancelled_ctxs m'. c < next_ctx m'"
      using ok p by (auto simp: sel log_streams_ok_def)
  next
    show "distinct (map ctx_p (started m'))"
      using dist by (simp add: sel)
  next
    show "\<forall>q\<in>set (started m'). ctx_p q \<notin> cancelled_ctxs m' \<longrightarrow>
        (\<exists>st'. map_of (streams m') (agentID_p q) = Some st' \<and> cancel_s st' = ctx_p q)"
    proof (intro ballI impI)
      fix q
      assume q: "q \<in> set (started m')" and live: "ctx_p q \<notin> cancelled_ctxs m'"
      then have q': "q \<in> set (started m)" "ctx_p q \<notin> cancelled_ctxs m" "ctx_p q \<noteq> cancel_s st"
        by (simp_all add: sel)
      with ok obtain st' where st': "map_of (streams m) (agentID_p q) = Some st'" "cancel_s st' = ctx_p q"
        unfolding log_streams_ok_def by blast
      have "agentID_p q \<noteq> a" using st st' q' by auto
      with st' show "\<exists>st'. map_of (streams m') (agentID_p q) = Some st' \<and> cancel_s st' = ctx_p q"
        by (simp add: sel delete_conv')
    qed
  qed
  with eq show ?thesis by simp
next
  case False
  define m' where "m' = m\<lparr>streams := AList.update a (st\<lparr>clients_s := removeAll c (clients_s st)\<rparr>) (streams m)\<rparr>"
  have eq: "remove_client a st c m = m'"
    using False by (simp add: remove_client_def m'_def)
  have sel: "streams m' = AList.update a (st\<lparr>clients_s := removeAll c (clients_s st)\<rparr>) (streams m)"
    "cancelled_ctxs m' = cancelled_ctxs m" "started m' = started m" "next_ctx m' = next_ctx m"
    by (simp_all add: m'_def)
  have "log_streams_ok m'"
    using ok st False
    by (intro log_streams_okI) (auto simp: sel log_streams_ok_def distinct_update update_conv')
  with eq show ?thesis by simp
qed

lemma log_streams_ok_Unsubscribe: "log_streams_ok m \<Longrightarrow> log_streams_ok (Unsubscribe_log a c m)"
  by (cases "map_of (streams m) a") (simp_all add: Unsubscribe_log_def log_streams_ok_remove_client)

lemma insert_not_Nil: "List.insert c cs \<noteq> []"
  by (auto simp: List.insert_def)

lemma log_streams_ok_Subscribe:
  assumes ok: "log_streams_ok m"
  shows "log_streams_ok (Subscribe_log poolMgr a c m)"
proof (cases "map_of (streams m) a")
  case (Some st)
  define m' where "m' = m\<lparr>streams := AList.update a (st\<lparr>clients_s := List.insert c (clients_s st)\<rparr>) (streams m)\<rparr>"
  have eq: "Subscribe_log poolMgr a c m = m'"
    using Some by (simp add: Subscribe_log_def m'_def)
  have sel: "streams m' = AList.update a (st\<lparr>clients_s := List.insert c (clients_s st)\<rparr>) (streams m)"
    "cancelled_ctxs m' = cancelled_ctxs m" "started m' = started m" "next_ctx m' = next_ctx m"
    by (simp_all add: m'_def)
  have "log_streams_ok m'"
    using ok Some
    by (intro log_streams_okI)
       (auto simp: sel log_streams_ok_def distinct_update update_conv' insert_not_Nil)
  with eq show ?thesis by simp
next
  case None
  show ?thesis
  proof (cases "GetSlot poolMgr a")
    case no: None
    with None ok show ?thesis by (simp add: Subscribe_log_def)
  next
    case (Some slot)
    define st where "st = \<lparr>agentID_s = a, vmName_s = Name slot, cancel_s = next_ctx m,
      clients_s = List.insert c []\<rparr>"
    define m' where "m' = m\<lparr>streams := AList.update a st (streams m), next_ctx := next_ctx m + 1,
      started := started m @ [\<lparr>ctx_p = next_ctx m, agentID_p = a, vmName_p = Name slot\<rparr>]\<rparr>"
    have eq: "Subscribe_log poolMgr a c m = m'"
      using None Some by (simp add: Subscribe_log_def m'_def st_def Let_def)
    have sel: "streams m' = AList.update a st (streams m)"
      "cancelled_ctxs m' = cancelled_ctxs m"
      "started m' = started m @ [\<lparr>ctx_p = next_ctx m, agentID_p = a, vmName_p = Name slot\<rparr>]"
      "next_ctx m' = next_ctx m + 1"
      by (simp_all add: m'_def)
    have stf: "clients_s st \<noteq> []" "agentID_s st = a" "cancel_s st = next_ctx m"
      by (simp_all add: st_def insert_not_Nil)
    have fresh: "next_ctx m \<notin> cancelled_ctxs m" "\<forall>p\<in>set (started m). ctx_p p \<noteq> next_ctx m"
      using ok by (auto simp: log_streams_ok_def)
    have "log_streams_ok m'"
    proof (rule log_streams_okI)
      show "distinct (map fst (streams m'))"
        using ok by (simp add: sel log_streams_ok_def distinct_update)
    next
      show "\<forall>a' st'. map_of (streams m') a' = Some st' \<longrightarrow>
        clients_s st' \<noteq> [] \<and> agentID_s st' = a' \<and> cancel_s st' \<notin> cancelled_ctxs m' \<and>
        (\<exists>p\<in>set (started m'). ctx_p p = cancel_s st' \<and> agentID_p p = a')"
        using ok stf fresh
        by (auto simp: sel log_streams_ok_def update_conv' split: if_splits)
    next
      show "\<forall>p\<in>set (started m'). ctx_p p < next_ctx m'"
        using ok by (auto simp: sel log_streams_ok_def less_Suc_eq)
    next
      show "\<forall>x\<in>cancelled_ctxs m'. x < next_ctx m'"
        using ok by (auto simp: sel log_streams_ok_def less_Suc_eq)
    next
      show "distinct (map ctx_p (started m'))"
        using ok fresh by (auto simp: sel log_streams_ok_def)
    next
      show "\<forall>q\<in>set (started m'). ctx_p q \<notin> cancelled_ctxs m' \<longrightarrow>
        (\<exists>st'. map_of (streams m') (agentID_p q) = Some st' \<and> cancel_s st' = ctx_p q)"
      proof (intro ballI impI)
        fix q assume q: "q \<in> set (started m')" "ctx_p q \<notin> cancelled_ctxs m'"
        show "\<exists>st'. map_of (streams m') (agentID_p q) = Some st' \<and> cancel_s st' = ctx_p q"
        proof (cases "q \<in> set (started m)")
          case True
          with ok q obtain st' where st': "map_of (streams m) (agentID_p q) = Some st'" "cancel_s st' = ctx_p q"
            unfolding log_streams_ok_def by (auto simp: sel)
          with None have "agentID_p q \<noteq> a" by auto
          with st' show ?thesis by (simp add: sel update_conv')
        next
          case False
          with q have "q = \<lparr>ctx_p = next_ctx m, agentID_p = a, vmName_p = Name slot\<rparr>"
            by (simp add: sel)
          then show ?thesis by (simp add: sel update_conv' stf)
        qed
      qed
    qed
    with eq show ?thesis by simp
  qed
qed

lemma remove_client_other:
  "a' \<noteq> a \<Longrightarrow> map_of (streams (remove_client a st c m)) a' = map_of (streams m) a'"
  by (simp add: remove_client_def Let_def update_conv' delete_conv')

lemma remove_client_same:
  "map_of (streams (remove_client a st c m)) a =
     (if removeAll c (clients_s st) = [] then None
      else Some (st\<lparr>clients_s := removeAll c (clients_s st)\<rparr>))"
  by (simp add: remove_client_def Let_def update_conv' delete_conv')

lemma remove_client_cancelled:
  "cancelled_ctxs (remove_client a st c m) =
     (if removeAll c (clients_s st) = [] then insert (cancel_s st) (cancelled_ctxs m) else cancelled_ctxs m)"
  by (simp add: remove_client_def Let_def)

lemma remove_all_other:
  "a \<notin> fst ` set es \<Longrightarrow>
   map_of (streams (foldl (\<lambda>m' (a, st). remove_client a st c m') m es)) a = map_of (streams m) a"
proof (induction es arbitrary: m)
  case Nil
  show ?case by simp
next
  case (Cons e es)
  obtain a' st' where e: "e = (a', st')" by (cases e)
  with Cons.prems have "a \<noteq> a'" "a \<notin> fst ` set es" by auto
  with Cons.IH [of "remove_client a' st' c m"] e show ?case
    by (simp add: remove_client_other)
qed

lemma remove_all_cancelled_mono:
  "cancelled_ctxs m \<subseteq> cancelled_ctxs (foldl (\<lambda>m' (a, st). remove_client a st c m') m es)"
proof (induction es arbitrary: m)
  case Nil
  show ?case by simp
next
  case (Cons e es)
  obtain a' st' where e: "e = (a', st')" by (cases e)
  have "cancelled_ctxs m \<subseteq> cancelled_ctxs (remove_client a' st' c m)"
    by (auto simp: remove_client_cancelled)
  with Cons.IH [of "remove_client a' st' c m"] e show ?case by auto
qed

lemma remove_all_entry:
  assumes "distinct (map fst es)" "(a, st) \<in> set es"
  shows "map_of (streams (foldl (\<lambda>m' (a, st). remove_client a st c m') m es)) a =
           (if removeAll c (clients_s st) = [] then None
            else Some (st\<lparr>clients_s := removeAll c (clients_s st)\<rparr>)) \<and>
         (removeAll c (clients_s st) = [] \<longrightarrow>
            cancel_s st \<in> cancelled_ctxs (foldl (\<lambda>m' (a, st). remove_client a st c m') m es))"
  using assms
proof (induction es arbitrary: m)
  case Nil
  then show ?case by simp
next
  case (Cons e es)
  obtain a' st' where e: "e = (a', st')" by (cases e)
  show ?case
  proof (cases "(a, st) = e")
    case True
    with e have same: "a' = a" "st' = st" by simp_all
    from Cons.prems e same have notin: "a \<notin> fst ` set es" by auto
    have m1: "map_of (streams (foldl (\<lambda>m' (a, st). remove_client a st c m') (remove_client a st c m) es)) a =
        map_of (streams (remove_client a st c m)) a"
      by (rule remove_all_other [OF notin])
    have m2: "cancelled_ctxs (remove_client a st c m) \<subseteq>
        cancelled_ctxs (foldl (\<lambda>m' (a, st). remove_client a st c m') (remove_client a st c m) es)"
      by (rule remove_all_cancelled_mono)
    from m1 m2 show ?thesis
      by (auto simp: e same remove_client_same remove_client_cancelled)
  next
    case False
    with Cons.prems have "distinct (map fst es)" "(a, st) \<in> set es" by auto
    from Cons.IH [OF this, of "remove_client a' st' c m"] e show ?thesis by simp
  qed
qed

lemma log_streams_ok_remove_all:
  assumes "log_streams_ok m" "distinct (map fst es)" "\<forall>(a, st)\<in>set es. map_of (streams m) a = Some st"
  shows "log_streams_ok (foldl (\<lambda>m' (a, st). remove_client a st c m') m es)"
  using assms
proof (induction es arbitrary: m)
  case Nil
  then show ?case by simp
next
  case (Cons e es)
  obtain a' st' where e: "e = (a', st')" by (cases e)
  from Cons.prems e have here: "map_of (streams m) a' = Some st'" by simp
  have ok': "log_streams_ok (remove_client a' st' c m)"
    by (rule log_streams_ok_remove_client [OF Cons.prems(1) here])
  from Cons.prems e have d: "distinct (map fst es)" and notin: "a' \<notin> fst ` set es" by auto
  have "\<forall>(a, st)\<in>set es. map_of (streams (remove_client a' st' c m)) a = Some st"
  proof (clarify)
    fix a st assume in_es: "(a, st) \<in> set es"
    with notin have "a \<noteq> a'" by force
    moreover from Cons.prems in_es have "map_of (streams m) a = Some st" by auto
    ultimately show "map_of (streams (remove_client a' st' c m)) a = Some st"
      by (simp add: remove_client_other)
  qed
  from Cons.IH [OF ok' d this] e show ?case by simp
qed

lemma log_streams_ok_UnsubscribeAll:
  assumes "log_streams_ok m"
  shows "log_streams_ok (UnsubscribeAll c m)"
proof -
  from assms have d: "distinct (map fst (streams m))" by (simp add: log_streams_ok_def)
  then have "\<forall>(a, st)\<in>set (streams m). map_of (streams m) a = Some st" by auto
  from log_streams_ok_remove_all [OF assms d this] show ?thesis
    by (simp add: UnsubscribeAll_def)
qed

lemma log_streams_ok_do_call: "log_streams_ok m \<Longrightarrow> log_streams_ok (do_call m call)"
  by (cases call)
     (simp_all add: log_streams_ok_Subscribe log_streams_ok_Unsubscribe log_streams_ok_UnsubscribeAll)

lemma log_streams_ok_foldl: "log_streams_ok m \<Longrightarrow> log_streams_ok (foldl do_call m calls)"
  by (induction calls arbitrary: m) (simp_all add: log_streams_ok_do_call)

lemma log_streams_ok_run: "log_streams_ok (run_calls calls)"
  by (simp add: run_calls_def log_streams_ok_foldl log_streams_ok_New)

text \<open>
  C8. After every sequence of \<open>Subscribe\<close>, \<open>Unsubscribe\<close> and \<open>UnsubscribeAll\<close> calls
  on a new manager: the streams map has at most one record per agent id; of the started
  log processes at most one per agent id has a context that is not cancelled, and it is
  the process of that agent's record; every record has at least one subscriber and its
  context is not cancelled. And whenever a further \<open>Unsubscribe\<close> or \<open>UnsubscribeAll\<close>
  takes the last subscriber of a stream away, the state it returns has that stream's
  context cancelled and no record for the agent.
\<close>

theorem log_streams_one_per_agent:
  "distinct (map fst (streams (run_calls calls))) \<and>
   (\<forall>p\<in>set (started (run_calls calls)). \<forall>q\<in>set (started (run_calls calls)).
      ctx_p p \<notin> cancelled_ctxs (run_calls calls) \<and> ctx_p q \<notin> cancelled_ctxs (run_calls calls) \<and>
      agentID_p p = agentID_p q \<longrightarrow> p = q) \<and>
   (\<forall>p\<in>set (started (run_calls calls)). ctx_p p \<notin> cancelled_ctxs (run_calls calls) \<longrightarrow>
      (\<exists>st. map_of (streams (run_calls calls)) (agentID_p p) = Some st \<and> cancel_s st = ctx_p p)) \<and>
   (\<forall>a st. map_of (streams (run_calls calls)) a = Some st \<longrightarrow>
      clients_s st \<noteq> [] \<and> cancel_s st \<notin> cancelled_ctxs (run_calls calls)) \<and>
   (\<forall>a c st. map_of (streams (run_calls calls)) a = Some st \<and> removeAll c (clients_s st) = [] \<longrightarrow>
      map_of (streams (Unsubscribe_log a c (run_calls calls))) a = None \<and>
      cancel_s st \<in> cancelled_ctxs (Unsubscribe_log a c (run_calls calls)) \<and>
      map_of (streams (UnsubscribeAll c (run_calls calls))) a = None \<and>
      cancel_s st \<in> cancelled_ctxs (UnsubscribeAll c (run_calls calls)))"
proof -
  define m where "m = run_calls calls"
  have ok: "log_streams_ok m" by (simp add: m_def log_streams_ok_run)
  then have d: "distinct (map fst (streams m))" and dc: "distinct (map ctx_p (started m))"
    by (simp_all add: log_streams_ok_def)
  have one: "p = q"
    if "p \<in> set (started m)" "q \<in> set (started m)" "ctx_p p \<notin> cancelled_ctxs m"
      "ctx_p q \<notin> cancelled_ctxs m" "agentID_p p = agentID_p q" for p q
  proof -
    from ok that obtain st where "map_of (streams m) (agentID_p p) = Some st" "cancel_s st = ctx_p p"
      unfolding log_streams_ok_def by blast
    moreover from ok that obtain st' where "map_of (streams m) (agentID_p q) = Some st'" "cancel_s st' = ctx_p q"
      unfolding log_streams_ok_def by blast
    ultimately have "ctx_p p = ctx_p q" using that(5) by simp
    from ctx_inj [OF dc that(1) that(2) this] show ?thesis .
  qed
  have live: "\<exists>st. map_of (streams m) (agentID_p p) = Some st \<and> cancel_s st = ctx_p p"
    if "p \<in> set (started m)" "ctx_p p \<notin> cancelled_ctxs m" for p
    using ok that unfolding log_streams_ok_def by blast
  have rec: "clients_s st \<noteq> [] \<and> cancel_s st \<notin> cancelled_ctxs m" if "map_of (streams m) a = Some st" for a st
    using ok that unfolding log_streams_ok_def by blast
  have stop: "map_of (streams (Unsubscribe_log a c m)) a = None \<and>
      cancel_s st \<in> cancelled_ctxs (Unsubscribe_log a c m) \<and>
      map_of (streams (UnsubscribeAll c m)) a = None \<and>
      cancel_s st \<in> cancelled_ctxs (UnsubscribeAll c m)"
    if "map_of (streams m) a = Some st" "removeAll c (clients_s st) = []" for a c st
  proof -
    from that(1) have mem: "(a, st) \<in> set (streams m)" by (rule map_of_SomeD)
    from remove_all_entry [OF d mem, of c m] that(2)
    have "map_of (streams (UnsubscribeAll c m)) a = None \<and> cancel_s st \<in> cancelled_ctxs (UnsubscribeAll c m)"
      by (simp add: UnsubscribeAll_def)
    moreover from that
    have "map_of (streams (Unsubscribe_log a c m)) a = None \<and> cancel_s st \<in> cancelled_ctxs (Unsubscribe_log a c m)"
      by (simp add: Unsubscribe_log_def remove_client_same remove_client_cancelled)
    ultimately show ?thesis by simp
  qed
  from d one live rec stop show ?thesis
    unfolding m_def [symmetric] by blast
qed

lemma run_test_calls:
  "run_calls test_calls =
     \<lparr>streams = [(''agent-42'', \<lparr>agentID_s = ''agent-42'', vmName_s = ''warm-1'', cancel_s = 0,
                                clients_s = [2]\<rparr>)],
      next_ctx = 1,
      started = [\<lparr>ctx_p = 0, agentID_p = ''agent-42'', vmName_p = ''warm-1''\<rparr>],
      cancelled_ctxs = {}\<rparr>"
  by (simp add: run_calls_def test_calls_def NewLogStreamManager_def Subscribe_log_def
      Unsubscribe_log_def remove_client_def GetSlot_def test_pool_def slot_lit_def Let_def)

theorem log_streams_one_per_agent_witness:
  "map_of (streams (Unsubscribe_log ''agent-42'' 2 (run_calls test_calls))) ''agent-42'' = None \<and>
   0 \<in> cancelled_ctxs (Unsubscribe_log ''agent-42'' 2 (run_calls test_calls)) \<and>
   map_of (streams (UnsubscribeAll 2 (run_calls test_calls))) ''agent-42'' = None \<and>
   0 \<in> cancelled_ctxs (UnsubscribeAll 2 (run_calls test_calls))"
proof -
  let ?st = "\<lparr>agentID_s = ''agent-42'', vmName_s = ''warm-1'', cancel_s = 0, clients_s = [2]\<rparr>"
  have h: "map_of (streams (run_calls test_calls)) ''agent-42'' = Some ?st \<and>
      removeAll 2 (clients_s ?st) = []"
    by (simp add: run_test_calls)
  note th = log_streams_one_per_agent [of test_calls, THEN conjunct2, THEN conjunct2,
      THEN conjunct2, THEN conjunct2, rule_format, OF h]
  then show ?thesis by simp
qed

end
